theory Spec2Isabelle
  imports Main "HOL-Library.AList" "HOL-Library.Multiset"
begin

section \<open>Python strings\<close>

text \<open>
  A Python \<open>str\<close> is modelled as a \<open>string\<close>: a list of characters, each character
  standing for the code point of the same number (0 to 255). All literals of the two
  scripts are ASCII.
\<close>

text \<open>
  \<open>str.isspace\<close> on one character, for the code points below 256: tab, line feed,
  vertical tab, form feed, carriage return, the four separators 0x1C to 0x1F, the space,
  NEL (0x85) and the no-break space (0xA0).
\<close>

definition isspace :: "char \<Rightarrow> bool" where
  "isspace c = (of_char c \<in> {9, 10, 11, 12, 13, 28, 29, 30, 31, 32, 133, 160 :: nat})"

text \<open>\<open>s.strip()\<close>: leading and trailing whitespace removed.\<close>

definition strip :: "string \<Rightarrow> string" where
  "strip s = rev (dropWhile isspace (rev (dropWhile isspace s)))"

text \<open>
  \<open>s.replace(old, new)\<close>: every occurrence of \<open>old\<close> replaced, scanning from the left and
  resuming after each occurrence found. For an empty \<open>old\<close> Python inserts \<open>new\<close> before
  every character and at the end.
\<close>

function replace :: "string \<Rightarrow> string \<Rightarrow> string \<Rightarrow> string" where
  "replace old new s =
     (if old = [] then new @ concat (map (\<lambda>c. c # new) s)
      else if s = [] then []
      else if take (length old) s = old then new @ replace old new (drop (length old) s)
      else hd s # replace old new (tl s))"
  by pat_completeness auto
termination
  by (relation "measure (\<lambda>(old, new, s). length s)") auto

declare replace.simps [simp del]

text \<open>\<open>old in s\<close> for two strings: \<open>old\<close> occurs in \<open>s\<close> as a substring.\<close>

fun contains :: "string \<Rightarrow> string \<Rightarrow> bool" where
  "contains [] old = (old = [])"
| "contains (c # cs) old = (take (length old) (c # cs) = old \<or> contains cs old)"

section \<open>Cleaning a group name\<close>

text \<open>
  The expression bound to \<open>cleaned_group\<close> in \<open>summarize_licenses\<close> (the same chain in
  both scripts): eight replacements by the empty string, in this order, then \<open>strip\<close>.
\<close>

definition removed_substrings :: "string list" where
  "removed_substrings =
     [''Default '', ''configuration'', '' plan with 1TB'', '' - 100 GB'', '' - 1024 GB'',
      ''Single App'', '' DC'', '' 3D Collection Configuration'']"

definition cleaned_group :: "string \<Rightarrow> string" where
  "cleaned_group grp =
     strip
      (replace '' 3D Collection Configuration'' ''''
      (replace '' DC'' ''''
      (replace ''Single App'' ''''
      (replace '' - 1024 GB'' ''''
      (replace '' - 100 GB'' ''''
      (replace '' plan with 1TB'' ''''
      (replace ''configuration'' ''''
      (replace ''Default '' '''' grp))))))))"

section \<open>Users, dictionaries and formatting\<close>

text \<open>
  A user is a JSON object of the API; the scripts read its \<open>groups\<close> key only, with
  \<open>user.get('groups', [])\<close>: \<open>None\<close> stands for an object without that key.
\<close>

record user =
  groups :: "string list option"

definition get_groups :: "user \<Rightarrow> string list" where
  "get_groups u = (case groups u of None \<Rightarrow> [] | Some gs \<Rightarrow> gs)"

text \<open>
  A Python \<open>dict\<close> keeps its keys in the order of their first insertion, and
  \<open>summarize_licenses\<close> iterates over \<open>license_counts.items()\<close>, so the dictionary is an
  association list: \<open>AList.update\<close> overwrites the value of a key in place and appends a
  new key at the end. \<open>dict_get d k v\<close> is \<open>d.get(k, v)\<close>.
\<close>

definition dict_get :: "('k \<times> 'v) list \<Rightarrow> 'k \<Rightarrow> 'v \<Rightarrow> 'v" where
  "dict_get d k dflt = (case map_of d k of None \<Rightarrow> dflt | Some v \<Rightarrow> v)"

text \<open>\<open>str(n)\<close> for an integer, as an f-string prints it.\<close>

fun digits :: "nat \<Rightarrow> string" where
  "digits n =
     (if n < 10 then [char_of (48 + n)]
      else digits (n div 10) @ [char_of (48 + n mod 10)])"

declare digits.simps [simp del]

definition str_int :: "int \<Rightarrow> string" where
  "str_int i = (if i < 0 then CHR ''-'' # digits (nat (- i)) else digits (nat i))"

text \<open>\<open>sep.join(xs)\<close>.\<close>

fun join :: "string \<Rightarrow> string list \<Rightarrow> string" where
  "join sep [] = []"
| "join sep [x] = x"
| "join sep (x # y # ys) = x @ sep @ join sep (y # ys)"

section \<open>The static tables\<close>

text \<open>\<open>EXCLUDED_GROUPS\<close> of \<open>refresh_adobe_license_monitor.py\<close>.\<close>

definition EXCLUDED_GROUPS :: "string list" where
  "EXCLUDED_GROUPS =
     [''Default Acrobat Pro DC configuration_B90DF18-provisioning'',
      ''Default All Apps plan - 100 GB configuration_C9431CF-provisioning'',
      ''Default Photoshop - 100 GB configuration_0A61F1F-provisioning'',
      ''Default Audition - 1024 GB configuration_4A18C28-provisioning'',
      ''_product_admin_Custom fonts (VIP,VIPMP - A1406BFDEA1D8CDBEDEA)'',
      ''_admin_Default Custom fonts configuration'',
      ''Default Premiere Pro - 1024 GB configuration_E71BE78-provisioning'',
      ''Default Illustrator - 100 GB configuration_A69B937-provisioning'',
      ''Default Lightroom Single App plan with 1TB configuration_6FBBDC1-provisioning'',
      ''Acrobat Users'',
      ''Default Custom fonts configuration'']"

text \<open>
  \<open>LICENSE_MAPPING\<close> of \<open>refresh_adobe_license_monitor.py\<close>; the local
  \<open>license_mapping\<close> of \<open>adobe_license_monitor.py\<close> is the same table.
\<close>

definition LICENSE_MAPPING :: "(string \<times> int) list" where
  "LICENSE_MAPPING =
     [(''Acrobat Pro'', 316),
      (''All Apps plan'', 268),
      (''Photoshop'', 14),
      (''Audition'', 2),
      (''Premiere Pro'', 22),
      (''Illustrator'', 7),
      (''Lightroom'', 1),
      (''Substance'', 4)]"

section \<open>The aggregator and the report: \<open>summarize_licenses\<close>\<close>

text \<open>
  The body of the inner loop of \<open>adobe_license_monitor.py\<close>:
  \<open>license_counts[cleaned_group] = license_counts.get(cleaned_group, 0) + 1\<close>.
\<close>

definition count_group :: "(string \<times> int) list \<Rightarrow> string \<Rightarrow> (string \<times> int) list" where
  "count_group license_counts grp =
     AList.update (cleaned_group grp)
       (dict_get license_counts (cleaned_group grp) 0 + 1) license_counts"

text \<open>
  The body of the inner loop of \<open>refresh_adobe_license_monitor.py\<close>: the same, after
  \<open>if group in EXCLUDED_GROUPS: continue\<close>.
\<close>

definition count_group_refresh ::
  "(string \<times> int) list \<Rightarrow> string \<Rightarrow> (string \<times> int) list" where
  "count_group_refresh license_counts grp =
     (if grp \<in> set EXCLUDED_GROUPS then license_counts
      else AList.update (cleaned_group grp)
             (dict_get license_counts (cleaned_group grp) 0 + 1) license_counts)"

text \<open>
  The two nested \<open>for\<close> loops, from the empty dictionary: over the users, and for each
  over \<open>user.get('groups', [])\<close>.
\<close>

definition license_counts :: "user list \<Rightarrow> (string \<times> int) list" where
  "license_counts users =
     foldl (\<lambda>counts u. foldl count_group counts (get_groups u)) [] users"

definition license_counts_refresh :: "user list \<Rightarrow> (string \<times> int) list" where
  "license_counts_refresh users =
     foldl (\<lambda>counts u. foldl count_group_refresh counts (get_groups u)) [] users"

text \<open>
  \<open>total = LICENSE_MAPPING.get(license_name, "Unknown")\<close> is an integer of the table or
  the string \<open>"Unknown"\<close>; the f-string prints either.
\<close>

datatype total = Seats int | Text string

definition total_of :: "string \<Rightarrow> total" where
  "total_of license_name =
     (case map_of LICENSE_MAPPING license_name of
        None \<Rightarrow> Text ''Unknown''
      | Some n \<Rightarrow> Seats n)"

fun format_total :: "total \<Rightarrow> string" where
  "format_total (Seats n) = str_int n"
| "format_total (Text s) = s"

text \<open>
  \<open>unit = "License" if license_name != "Adobe Stock Credits" else "Credits"\<close>, then
  \<open>unit += "s" if used > 1 else ""\<close>.
\<close>

definition base_unit :: "string \<Rightarrow> string" where
  "base_unit license_name =
     (if license_name \<noteq> ''Adobe Stock Credits'' then ''License'' else ''Credits'')"

definition unit_label :: "string \<Rightarrow> int \<Rightarrow> string" where
  "unit_label license_name used =
     base_unit license_name @ (if used > 1 then ''s'' else [])"

text \<open>The f-string \<open>"{license_name}: {used} of {total} {unit}"\<close>.\<close>

definition summary_line :: "string \<Rightarrow> int \<Rightarrow> string" where
  "summary_line license_name used =
     license_name @ '': '' @ str_int used @ '' of '' @ format_total (total_of license_name)
       @ '' '' @ unit_label license_name used"

text \<open>The list \<open>summary\<close>: one line per item of the dictionary, in its order.\<close>

definition summary :: "(string \<times> int) list \<Rightarrow> string list" where
  "summary counts = map (\<lambda>(license_name, used). summary_line license_name used) counts"

text \<open>\<open>summarize_licenses\<close> of \<open>adobe_license_monitor.py\<close>.\<close>

definition summarize_licenses :: "user list \<Rightarrow> string" where
  "summarize_licenses users = join [CHR 0x0A] (summary (license_counts users))"

text \<open>\<open>summarize_licenses\<close> of \<open>refresh_adobe_license_monitor.py\<close>.\<close>

definition summarize_licenses_refresh :: "user list \<Rightarrow> string" where
  "summarize_licenses_refresh users = join [CHR 0x0A] (summary (license_counts_refresh users))"

section \<open>HTTP exchanges\<close>

text \<open>
  What one call of \<open>requests.request\<close> (or \<open>requests.get\<close>) gives the scripts. Of a
  response they read the status code, the \<open>Retry-After\<close> header and \<open>response.json()\<close>.

  The header is read through \<open>int(response.headers.get('Retry-After', default))\<close>: it is
  absent, or a text that \<open>int\<close> parses, or a text on which \<open>int\<close> raises \<open>ValueError\<close>
  (an HTTP date, for instance).

  Of the decoded JSON value \<open>r\<close> the scripts evaluate the truth value of \<open>r\<close>,
  \<open>r['users']\<close> and the truth value of \<open>r['lastPage']\<close>:
  \<^item> \<open>Falsy\<close> is a value Python takes as false (\<open>{}\<close>, \<open>[]\<close>, \<open>null\<close>, \<open>0\<close>, \<open>""\<close>, \<open>false\<close>);
    indexing it with \<open>'users'\<close> raises;
  \<^item> \<open>Page us is_last\<close> is an object whose \<open>users\<close> is the list \<open>us\<close> and whose \<open>lastPage\<close>
    has the truth value \<open>is_last\<close>;
  \<^item> \<open>Malformed\<close> is any other value taken as true: one of the two lookups raises
    \<open>KeyError\<close> or \<open>TypeError\<close>.
\<close>

datatype retry_after_header = NoRetryAfter | RetryAfterInt int | RetryAfterInvalid

datatype json = Falsy | Page "user list" bool | Malformed

record response =
  status_code :: int
  retry_after :: retry_after_header
  body :: "json option" \<comment> \<open>\<open>response.json()\<close>; \<open>None\<close> when it raises\<close>

datatype http = Raises | Responds response

text \<open>A Python call returns a value, or an exception leaves it uncaught.\<close>

datatype 'a result = Returns 'a | Exception

section \<open>\<open>make_call\<close> of \<open>adobe_license_monitor.py\<close>\<close>

text \<open>The status codes of \<open>response.status_code in [429, 502, 503, 504]\<close>.\<close>

definition retryable :: "int \<Rightarrow> bool" where
  "retryable code = (code \<in> set [429, 502, 503, 504])"

text \<open>
  \<open>retry_wait = int(response.headers.get('Retry-After', (2 ** attempt) + randint(0, 5)))\<close>;
  \<open>None\<close> when \<open>int\<close> raises. \<open>randint(0, 5)\<close> returns one of 0, ..., 5: the draw of the
  random source, \<open>draw\<close>, taken modulo 6.
\<close>

definition retry_wait :: "response \<Rightarrow> nat \<Rightarrow> nat \<Rightarrow> int option" where
  "retry_wait r attempt draw =
     (case retry_after r of
        NoRetryAfter \<Rightarrow> Some (2 ^ attempt + int (draw mod 6))
      | RetryAfterInt n \<Rightarrow> Some n
      | RetryAfterInvalid \<Rightarrow> None)"

text \<open>
  \<open>sleep(secs)\<close> on an integer raises \<open>ValueError\<close> when \<open>secs\<close> is negative and
  \<open>OverflowError\<close> when \<open>secs\<close> in nanoseconds does not fit a signed 64-bit integer, that
  is from 9223372037 seconds on; otherwise it returns after the wait.
\<close>

definition sleep_raises :: "int \<Rightarrow> bool" where
  "sleep_raises secs = (secs < 0 \<or> 2 ^ 63 - 1 < secs * 10 ^ 9)"

text \<open>
  The \<open>for attempt in ...\<close> loop over the attempts that remain. \<open>server attempt\<close> is what
  the request of that attempt gives, \<open>randint attempt\<close> the draw of the random source in
  it, and \<open>sent\<close> counts the requests made so far; the function returns the count with the
  result. Everything inside \<open>try\<close> that raises (the request, \<open>response.json()\<close>, \<open>int\<close>)
  ends in \<open>return None\<close>; \<open>sleep(retry_wait)\<close>, reached when \<open>attempt < 4\<close>, stands
  outside \<open>try\<close>, so what it raises leaves \<open>make_call\<close> uncaught. When the attempts are
  used up the function returns \<open>None\<close>.
\<close>

fun make_call_loop ::
  "(nat \<Rightarrow> http) \<Rightarrow> (nat \<Rightarrow> nat) \<Rightarrow> nat list \<Rightarrow> nat \<Rightarrow> json option result \<times> nat" where
  "make_call_loop server randint [] sent = (Returns None, sent)"
| "make_call_loop server randint (attempt # attempts) sent =
     (case server attempt of
        Raises \<Rightarrow> (Returns None, Suc sent)
      | Responds r \<Rightarrow>
          if status_code r = 200 then (Returns (body r), Suc sent)
          else if retryable (status_code r) then
            (case retry_wait r attempt (randint attempt) of
               None \<Rightarrow> (Returns None, Suc sent)
             | Some w \<Rightarrow>
                 if attempt < 4 \<and> sleep_raises w then (Exception, Suc sent)
                 else make_call_loop server randint attempts (Suc sent))
          else (Returns None, Suc sent))"

text \<open>\<open>make_call\<close>: the loop over \<open>range(1, 5)\<close>.\<close>

definition make_call :: "(nat \<Rightarrow> http) \<Rightarrow> (nat \<Rightarrow> nat) \<Rightarrow> json option result \<times> nat" where
  "make_call server randint = make_call_loop server randint [1, 2, 3, 4] 0"

section \<open>\<open>get_users_in_org\<close>\<close>

text \<open>
  The \<open>while\<close> loop of \<open>adobe_license_monitor.py\<close>. \<open>server page_index attempt\<close> is the
  answer to the request for a page in an attempt of \<open>make_call\<close>. \<open>requests\<close> lists the
  HTTP requests made, in order, each as the page index asked for and the attempt of
  \<open>make_call\<close> that made it. The loop may run forever: the result is \<open>None\<close> then.
\<close>

definition requests_for ::
  "(nat \<Rightarrow> nat \<Rightarrow> http) \<Rightarrow> (nat \<Rightarrow> nat \<Rightarrow> nat) \<Rightarrow> nat \<Rightarrow> (nat \<times> nat) list" where
  "requests_for server randint page_index =
     map (Pair page_index) [1..<Suc (snd (make_call (server page_index) (randint page_index)))]"

partial_function (option) fetch_pages ::
  "(nat \<Rightarrow> nat \<Rightarrow> http) \<Rightarrow> (nat \<Rightarrow> nat \<Rightarrow> nat) \<Rightarrow> nat \<Rightarrow> user list \<Rightarrow> (nat \<times> nat) list
    \<Rightarrow> (user list result \<times> (nat \<times> nat) list) option" where
  "fetch_pages server randint page_index users_list requests =
     (case fst (make_call (server page_index) (randint page_index)) of
        Exception \<Rightarrow>
          Some (Exception, requests @ requests_for server randint page_index)
      | Returns None \<Rightarrow>
          Some (Returns users_list, requests @ requests_for server randint page_index)
      | Returns (Some Falsy) \<Rightarrow>
          Some (Returns users_list, requests @ requests_for server randint page_index)
      | Returns (Some Malformed) \<Rightarrow>
          Some (Exception, requests @ requests_for server randint page_index)
      | Returns (Some (Page us is_last)) \<Rightarrow>
          if is_last
          then Some (Returns (users_list @ us),
                 requests @ requests_for server randint page_index)
          else fetch_pages server randint (Suc page_index) (users_list @ us)
                 (requests @ requests_for server randint page_index))"

declare fetch_pages.simps [code]

definition get_users_in_org ::
  "(nat \<Rightarrow> nat \<Rightarrow> http) \<Rightarrow> (nat \<Rightarrow> nat \<Rightarrow> nat)
    \<Rightarrow> (user list result \<times> (nat \<times> nat) list) option" where
  "get_users_in_org server randint = fetch_pages server randint 0 [] []"

text \<open>
  The \<open>while True\<close> loop of \<open>refresh_adobe_license_monitor.py\<close>: one \<open>requests.get\<close> per
  page, no \<open>try\<close> and no retry. \<open>server page_index\<close> is the answer to the request for a
  page, and \<open>requests\<close> lists the page indices of the HTTP requests made, in order.
\<close>

partial_function (option) fetch_pages_refresh ::
  "(nat \<Rightarrow> http) \<Rightarrow> nat \<Rightarrow> user list \<Rightarrow> nat list \<Rightarrow> (user list result \<times> nat list) option" where
  "fetch_pages_refresh server page_index users_list requests =
     (case server page_index of
        Raises \<Rightarrow> Some (Exception, requests @ [page_index])
      | Responds r \<Rightarrow>
          if status_code r = 200 then
            (case body r of
               None \<Rightarrow> Some (Exception, requests @ [page_index])
             | Some Falsy \<Rightarrow> Some (Exception, requests @ [page_index])
             | Some Malformed \<Rightarrow> Some (Exception, requests @ [page_index])
             | Some (Page us is_last) \<Rightarrow>
                 if is_last then Some (Returns (users_list @ us), requests @ [page_index])
                 else fetch_pages_refresh server (Suc page_index) (users_list @ us)
                        (requests @ [page_index]))
          else Some (Returns users_list, requests @ [page_index]))"

declare fetch_pages_refresh.simps [code]

definition get_users_in_org_refresh ::
  "(nat \<Rightarrow> http) \<Rightarrow> (user list result \<times> nat list) option" where
  "get_users_in_org_refresh server = fetch_pages_refresh server 0 [] []"

section \<open>Classes of answers, and example inputs\<close>

text \<open>
  An answer on which \<open>make_call\<close> goes on to its next attempt: a retryable status code,
  with a \<open>Retry-After\<close> header that is absent or an integer that \<open>sleep\<close> accepts (from
  0 to 9223372036).
\<close>

definition retries :: "http \<Rightarrow> bool" where
  "retries h =
     (case h of
        Raises \<Rightarrow> False
      | Responds r \<Rightarrow>
          retryable (status_code r)
          \<and> (case retry_after r of
                NoRetryAfter \<Rightarrow> True
              | RetryAfterInt n \<Rightarrow> \<not> sleep_raises n
              | RetryAfterInvalid \<Rightarrow> False))"

text \<open>
  A request that fails for good: it raises, or its status code is neither 200 nor
  retryable.
\<close>

definition aborts :: "http \<Rightarrow> bool" where
  "aborts h =
     (case h of
        Raises \<Rightarrow> True
      | Responds r \<Rightarrow> status_code r \<noteq> 200 \<and> \<not> retryable (status_code r))"

text \<open>
  The call of \<open>make_call\<close> for a page returns a page (straight away or after retries).
\<close>

definition answers ::
  "(nat \<Rightarrow> nat \<Rightarrow> http) \<Rightarrow> (nat \<Rightarrow> nat \<Rightarrow> nat) \<Rightarrow> nat \<Rightarrow> user list \<Rightarrow> bool \<Rightarrow> bool" where
  "answers server randint page_index us is_last =
     (fst (make_call (server page_index) (randint page_index)) = Returns (Some (Page us is_last)))"

text \<open>A request answered with status 200 and a page.\<close>

definition serves :: "http \<Rightarrow> user list \<Rightarrow> bool \<Rightarrow> bool" where
  "serves h us is_last =
     (case h of
        Raises \<Rightarrow> False
      | Responds r \<Rightarrow> status_code r = 200 \<and> body r = Some (Page us is_last))"

text \<open>A request answered with a status code other than 200.\<close>

definition refuses :: "http \<Rightarrow> bool" where
  "refuses h = (case h of Raises \<Rightarrow> False | Responds r \<Rightarrow> status_code r \<noteq> 200)"

text \<open>Example answers, users and servers, for the concrete instances below.\<close>

definition page_response :: "user list \<Rightarrow> bool \<Rightarrow> http" where
  "page_response us is_last =
     Responds \<lparr>status_code = 200, retry_after = NoRetryAfter, body = Some (Page us is_last)\<rparr>"

definition status_response :: "int \<Rightarrow> retry_after_header \<Rightarrow> http" where
  "status_response code header =
     Responds \<lparr>status_code = code, retry_after = header, body = None\<rparr>"

definition member_of :: "string list \<Rightarrow> user" where
  "member_of gs = \<lparr>groups = Some gs\<rparr>"

definition no_jitter :: "nat \<Rightarrow> nat \<Rightarrow> nat" where
  "no_jitter page_index attempt = 0"

text \<open>Every attempt is answered 429 with an HTTP date in \<open>Retry-After\<close>.\<close>

definition dated_retry_server :: "nat \<Rightarrow> http" where
  "dated_retry_server attempt = status_response 429 RetryAfterInvalid"

text \<open>Every attempt is answered 429 with \<open>Retry-After: 9223372037\<close>.\<close>

definition huge_retry_server :: "nat \<Rightarrow> http" where
  "huge_retry_server attempt = status_response 429 (RetryAfterInt 9223372037)"

text \<open>Every attempt is answered 429 with \<open>Retry-After: -1\<close>.\<close>

definition negative_retry_server :: "nat \<Rightarrow> http" where
  "negative_retry_server attempt = status_response 429 (RetryAfterInt (- 1))"

text \<open>Every attempt is answered 503 without a \<open>Retry-After\<close> header.\<close>

definition busy_server :: "nat \<Rightarrow> http" where
  "busy_server attempt = status_response 503 NoRetryAfter"

text \<open>Page 0 holds one user and is not the last; page 1 holds one user and is the last.\<close>

definition two_page_users :: "nat \<Rightarrow> user list" where
  "two_page_users page_index =
     (if page_index = 0 then [member_of [''Photoshop'']] else [member_of [''Audition'']])"

definition two_page_server :: "nat \<Rightarrow> http" where
  "two_page_server page_index = page_response (two_page_users page_index) (page_index \<noteq> 0)"

text \<open>No page is the last.\<close>

definition endless_server :: "nat \<Rightarrow> http" where
  "endless_server page_index = page_response [] False"

text \<open>Page 0 as above; the request for page 1 is answered 500.\<close>

definition broken_server :: "nat \<Rightarrow> http" where
  "broken_server page_index =
     (if page_index = 0 then page_response [member_of [''Photoshop'']] False
      else status_response 500 NoRetryAfter)"

text \<open>
  The same three servers as \<open>make_call\<close> meets them, attempt by attempt: the first two
  attempts for a page are answered 429 and the third as above; the second attempt for
  page 1 of the broken server is the one answered 500.
\<close>

definition slow_two_page_server :: "nat \<Rightarrow> nat \<Rightarrow> http" where
  "slow_two_page_server page_index attempt =
     (if attempt < 3 then status_response 429 (RetryAfterInt 1) else two_page_server page_index)"

definition slow_endless_server :: "nat \<Rightarrow> nat \<Rightarrow> http" where
  "slow_endless_server page_index attempt =
     (if attempt < 3 then status_response 429 (RetryAfterInt 1) else endless_server page_index)"

definition slow_broken_server :: "nat \<Rightarrow> nat \<Rightarrow> http" where
  "slow_broken_server page_index attempt =
     (if page_index = 0 then page_response [member_of [''Photoshop'']] False
      else if attempt < 2 then status_response 503 NoRetryAfter
      else status_response 500 NoRetryAfter)"

text \<open>The first request is answered 403.\<close>

definition forbidden_server :: "nat \<Rightarrow> http" where
  "forbidden_server page_index = status_response 403 NoRetryAfter"

definition forbidden_server_attempts :: "nat \<Rightarrow> nat \<Rightarrow> http" where
  "forbidden_server_attempts page_index attempt = status_response 403 NoRetryAfter"

section \<open>The counting loop\<close>

text \<open>One step of the loop: what it does to a lookup, to the keys, to the sum of the values.\<close>

lemma dict_get_update:
  "dict_get (AList.update k v d) p dflt = (if p = k then v else dict_get d p dflt)"
  by (simp add: dict_get_def update_conv')

lemma dict_get_count_group:
  "dict_get (count_group d g) p 0 = dict_get d p 0 + (if cleaned_group g = p then 1 else 0)"
  by (simp add: count_group_def dict_get_update)

lemma keys_count_group:
  "fst ` set (count_group d g) = insert (cleaned_group g) (fst ` set d)"
  by (simp add: count_group_def dom_update)

lemma distinct_count_group:
  "distinct (map fst d) \<Longrightarrow> distinct (map fst (count_group d g))"
  by (simp add: count_group_def distinct_update)

lemma sum_update_bump:
  "sum_list (map snd (AList.update k (dict_get d k 0 + 1) d)) = sum_list (map snd d) + (1::int)"
  by (induction d) (auto simp: dict_get_def)

lemma sum_count_group:
  "sum_list (map snd (count_group d g)) = sum_list (map snd d) + 1"
  by (simp add: count_group_def sum_update_bump)

lemma set_update_subset: "set (AList.update k v d) \<subseteq> insert (k, v) (set d)"
  by (induction d) auto

lemma dict_get_nonneg:
  "\<forall>(k, v) \<in> set d. 1 \<le> v \<Longrightarrow> 0 \<le> dict_get d p (0::int)"
  by (auto simp: dict_get_def split: option.splits dest!: map_of_SomeD)

lemma positive_count_group:
  assumes "\<forall>(k, v) \<in> set d. 1 \<le> v"
  shows "\<forall>(k, v) \<in> set (count_group d g). 1 \<le> v"
proof -
  have "0 \<le> dict_get d (cleaned_group g) 0" using assms by (rule dict_get_nonneg)
  then show ?thesis
    using assms set_update_subset [of "cleaned_group g" "dict_get d (cleaned_group g) 0 + 1" d]
    by (auto simp: count_group_def)
qed

lemma dict_get_tally:
  "dict_get (foldl count_group d gs) p 0
     = dict_get d p 0 + int (length (filter (\<lambda>g. cleaned_group g = p) gs))"
  by (induction gs arbitrary: d) (auto simp: dict_get_count_group)

lemma keys_tally:
  "fst ` set (foldl count_group d gs) = fst ` set d \<union> cleaned_group ` set gs"
  by (induction gs arbitrary: d) (auto simp: keys_count_group)

lemma distinct_tally:
  "distinct (map fst d) \<Longrightarrow> distinct (map fst (foldl count_group d gs))"
  by (induction gs arbitrary: d) (auto simp: distinct_count_group)

lemma sum_tally:
  "sum_list (map snd (foldl count_group d gs)) = sum_list (map snd d) + int (length gs)"
  by (induction gs arbitrary: d) (auto simp: sum_count_group)

lemma positive_tally:
  "\<forall>(k, v) \<in> set d. 1 \<le> v \<Longrightarrow> \<forall>(k, v) \<in> set (foldl count_group d gs). 1 \<le> v"
proof (induction gs arbitrary: d)
  case Nil then show ?case by simp
next
  case (Cons g gs)
  from Cons.prems have "\<forall>(k, v) \<in> set (count_group d g). 1 \<le> v" by (rule positive_count_group)
  then have "\<forall>(k, v) \<in> set (foldl count_group (count_group d g) gs). 1 \<le> v" by (rule Cons.IH)
  then show ?case by simp
qed

lemma nested_loops:
  "foldl (\<lambda>counts u. foldl f counts (get_groups u)) d us = foldl f d (concat (map get_groups us))"
  by (induction us arbitrary: d) auto

lemma skip_excluded:
  "foldl count_group_refresh d gs = foldl count_group d (filter (\<lambda>g. g \<notin> set EXCLUDED_GROUPS) gs)"
proof (induction gs arbitrary: d)
  case Nil show ?case by simp
next
  case (Cons g gs)
  show ?case
  proof (cases "g \<in> set EXCLUDED_GROUPS")
    case True
    then have "count_group_refresh d g = d" by (simp only: count_group_refresh_def if_True)
    with True Cons show ?thesis by simp
  next
    case False
    then have "count_group_refresh d g = count_group d g"
      by (simp only: count_group_refresh_def count_group_def if_False)
    with False Cons show ?thesis by simp
  qed
qed

lemma license_counts_flat:
  "license_counts us = foldl count_group [] (concat (map get_groups us))"
  by (simp add: license_counts_def nested_loops)

lemma license_counts_refresh_flat:
  "license_counts_refresh us
     = foldl count_group [] (filter (\<lambda>g. g \<notin> set EXCLUDED_GROUPS) (concat (map get_groups us)))"
proof -
  have "license_counts_refresh us = foldl count_group_refresh [] (concat (map get_groups us))"
    by (simp only: license_counts_refresh_def nested_loops)
  then show ?thesis by (simp only: skip_excluded)
qed

lemma map_of_dict_get:
  "map_of d p = (if p \<in> fst ` set d then Some (dict_get d p dflt) else None)"
  by (auto simp: dict_get_def map_of_eq_None_iff split: option.splits)

lemma lookup_tally:
  "map_of (foldl count_group [] gs) p =
     (let n = length (filter (\<lambda>g. cleaned_group g = p) gs)
      in if n = 0 then None else Some (int n))"
proof -
  have "p \<in> cleaned_group ` set gs \<longleftrightarrow> filter (\<lambda>g. cleaned_group g = p) gs \<noteq> []"
    by (auto simp: filter_empty_conv)
  show ?thesis
  proof -
    have "map_of (foldl count_group [] gs) p =
        (if p \<in> fst ` set (foldl count_group [] gs)
         then Some (dict_get (foldl count_group [] gs) p 0) else None)"
      by (rule map_of_dict_get)
    moreover have "dict_get [] p (0::int) = 0" by (simp add: dict_get_def)
    ultimately show ?thesis using \<open>p \<in> cleaned_group ` set gs \<longleftrightarrow> _\<close>
      by (simp add: keys_tally dict_get_tally Let_def)
  qed
qed

text \<open>Permuting the users permutes the group strings counted, and the items of the dictionary.\<close>

lemma mset_groups_perm:
  assumes "mset us = mset us'"
  shows "mset (concat (map get_groups us)) = mset (concat (map get_groups us'))"
proof -
  have "mset (concat (map get_groups xs)) = sum_mset (image_mset (\<lambda>u. mset (get_groups u)) (mset xs))" for xs
    by (induction xs) auto
  with assms show ?thesis by simp
qed

lemma length_filter_perm:
  assumes "mset xs = mset ys"
  shows "length (filter P xs) = length (filter P ys)"
proof -
  have "mset (filter P xs) = mset (filter P ys)"
    using assms by (simp only: mset_filter)
  then show ?thesis by (rule mset_eq_length)
qed

lemma tally_perm:
  assumes "mset gs = mset gs'"
  shows "map_of (foldl count_group [] gs) = map_of (foldl count_group [] gs')"
proof
  fix p
  show "map_of (foldl count_group [] gs) p = map_of (foldl count_group [] gs') p"
    by (simp only: lookup_tally length_filter_perm [OF assms])
qed

lemma items_perm:
  assumes "distinct (map fst xs)" and "distinct (map fst ys)" and "map_of xs = map_of ys"
  shows "mset xs = mset ys"
proof -
  have "set xs = set ys" using assms by (simp add: map_of_inject_set)
  moreover have "distinct xs" "distinct ys" using assms(1,2) by (auto simp: distinct_map)
  ultimately show ?thesis by (simp add: set_eq_iff_mset_eq_distinct)
qed

lemma tally_items_perm:
  assumes "mset gs = mset gs'"
  shows "mset (foldl count_group [] gs) = mset (foldl count_group [] gs')"
  by (rule items_perm) (simp_all add: distinct_tally tally_perm [OF assms])

lemma summary_perm:
  "mset xs = mset ys \<Longrightarrow> mset (summary xs) = mset (summary ys)"
proof -
  assume "mset xs = mset ys"
  then have "image_mset (\<lambda>(license_name, used). summary_line license_name used) (mset xs)
      = image_mset (\<lambda>(license_name, used). summary_line license_name used) (mset ys)"
    by simp
  then show ?thesis by (simp only: summary_def mset_map)
qed

text \<open>
  The keys of the dictionary stand in the order of their first insertion:
  \<open>rev (remdups (rev xs))\<close> keeps the first occurrence of every element of \<open>xs\<close>.
\<close>

lemma remdups_later: "k \<in> set ys \<Longrightarrow> remdups (xs @ k # ys) = remdups (xs @ ys)"
  by (induction xs) auto

lemma keys_count_group_order:
  "map fst (count_group d g) =
     (if cleaned_group g \<in> set (map fst d) then map fst d else map fst d @ [cleaned_group g])"
  by (simp add: count_group_def update_keys)

lemma keys_tally_order:
  "distinct (map fst d) \<Longrightarrow>
     map fst (foldl count_group d gs) = rev (remdups (rev (map fst d @ map cleaned_group gs)))"
proof (induction gs arbitrary: d)
  case Nil
  then show ?case by (simp add: distinct_remdups_id)
next
  case (Cons g gs)
  have d': "distinct (map fst (count_group d g))"
    using Cons.prems by (rule distinct_count_group)
  show ?case
  proof (cases "cleaned_group g \<in> set (map fst d)")
    case True
    then have "remdups (rev (map cleaned_group gs) @ cleaned_group g # rev (map fst d))
        = remdups (rev (map cleaned_group gs) @ rev (map fst d))"
      by (intro remdups_later) simp
    with True Cons.IH [OF d'] show ?thesis by (simp add: keys_count_group_order)
  next
    case False
    with Cons.IH [OF d'] show ?thesis by (simp add: keys_count_group_order)
  qed
qed

lemma items_by_key:
  "distinct (map fst d) \<Longrightarrow> d = map (\<lambda>k. (k, dict_get d k dflt)) (map fst d)"
proof (induction d)
  case Nil
  show ?case by simp
next
  case (Cons kv d)
  obtain k v where kv: "kv = (k, v)" by (cases kv)
  from Cons.prems kv have notin: "k \<notin> fst ` set d" and dist: "distinct (map fst d)" by auto
  have "map (\<lambda>k'. (k', dict_get ((k, v) # d) k' dflt)) (map fst d)
      = map (\<lambda>k'. (k', dict_get d k' dflt)) (map fst d)"
    using notin by (intro map_cong) (auto simp: dict_get_def)
  also have "\<dots> = d" using Cons.IH [OF dist] by simp
  finally show ?case by (simp add: kv dict_get_def)
qed

lemma summary_tally:
  "summary (foldl count_group [] gs) =
     map (\<lambda>p. summary_line p (int (length (filter (\<lambda>g. cleaned_group g = p) gs))))
       (rev (remdups (rev (map cleaned_group gs))))"
proof -
  let ?d = "foldl count_group [] gs"
  have dist: "distinct (map fst ?d)" by (simp add: distinct_tally)
  have keys: "map fst ?d = rev (remdups (rev (map cleaned_group gs)))"
    using keys_tally_order [of "[]" gs] by simp
  have "?d = map (\<lambda>k. (k, dict_get ?d k 0)) (map fst ?d)"
    using dist by (rule items_by_key)
  then have "summary ?d = map (\<lambda>p. summary_line p (dict_get ?d p 0)) (map fst ?d)"
    unfolding summary_def by (metis (mono_tags, lifting) case_prod_conv map_map o_def map_eq_conv)
  moreover have "dict_get [] p (0::int) = 0" for p :: string by (simp add: dict_get_def)
  ultimately show ?thesis by (simp add: keys dict_get_tally)
qed

lemma item_line:
  "(p, n) \<in> set d \<Longrightarrow> summary_line p n \<in> set (summary d)"
  by (force simp: summary_def)

lemma line_in_join:
  "line \<in> set ls \<Longrightarrow> \<exists>pre post. join sep ls = join sep (pre @ line # post)"
  by (metis split_list)

section \<open>Cleaning twice\<close>

lemma replace_absent:
  "old \<noteq> [] \<Longrightarrow> \<not> contains s old \<Longrightarrow> replace old new s = s"
proof (induction s)
  case Nil
  then show ?case by (subst replace.simps) simp
next
  case (Cons c cs)
  then have "replace old new cs = cs" and "take (length old) (c # cs) \<noteq> old" by auto
  with Cons.prems(1) show ?case by (subst replace.simps) simp
qed

lemma length_replace_le: "old \<noteq> [] \<Longrightarrow> length (replace old [] s) \<le> length s"
proof (induction old "[] :: string" s rule: replace.induct)
  case (1 old s)
  show ?case
  proof (cases "s = []")
    case True
    with "1.prems" show ?thesis by (subst replace.simps) simp
  next
    case False
    show ?thesis
    proof (cases "take (length old) s = old")
      case True
      with "1.prems" False "1.hyps"(1) have "length (replace old [] (drop (length old) s)) \<le> length s - length old"
        by fastforce
      with True False "1.prems" show ?thesis by (subst replace.simps) simp
    next
      case no: False
      with "1.prems" False "1.hyps"(2) have "length (replace old [] (tl s)) \<le> length s - 1"
        by fastforce
      with no False "1.prems" show ?thesis by (subst replace.simps) (cases s; simp)
    qed
  qed
qed

lemma length_replace_less:
  "old \<noteq> [] \<Longrightarrow> contains s old \<Longrightarrow> length (replace old [] s) < length s"
proof (induction s)
  case Nil
  then show ?case by simp
next
  case (Cons c cs)
  show ?case
  proof (cases "take (length old) (c # cs) = old")
    case True
    define r where "r = drop (length old) (c # cs)"
    have "length (replace old [] r) \<le> length r"
      using Cons.prems(1) by (rule length_replace_le)
    moreover have "0 < length old" using Cons.prems(1) by simp
    moreover have "length old \<le> length (c # cs)"
    proof -
      have "length (take (length old) (c # cs)) = length old" by (simp only: True)
      then show ?thesis by simp
    qed
    moreover have "length r = length (c # cs) - length old" by (simp add: r_def)
    ultimately have "length (replace old [] r) < length (c # cs)" by linarith
    moreover have "replace old [] (c # cs) = replace old [] r"
      using True Cons.prems(1) by (subst replace.simps) (simp add: r_def)
    ultimately show ?thesis by simp
  next
    case False
    with Cons have "length (replace old [] cs) < length cs" by simp
    with False Cons.prems(1) show ?thesis by (subst replace.simps) simp
  qed
qed

lemma dropWhile_fixed: "xs = [] \<or> \<not> P (hd xs) \<Longrightarrow> dropWhile P xs = xs"
  by (cases xs) auto

lemma strip_fixed:
  assumes "s = [] \<or> (\<not> isspace (hd s) \<and> \<not> isspace (last s))"
  shows "strip s = s"
proof -
  have "dropWhile isspace s = s" using assms by (intro dropWhile_fixed) auto
  moreover have "dropWhile isspace (rev s) = rev s"
    using assms by (intro dropWhile_fixed) (auto simp: hd_rev)
  ultimately show ?thesis by (simp add: strip_def)
qed

lemma strip_ends:
  "strip s = [] \<or> (\<not> isspace (hd (strip s)) \<and> \<not> isspace (last (strip s)))"
proof (cases "strip s = []")
  case True
  then show ?thesis by simp
next
  case False
  define d where "d = dropWhile isspace s"
  define e where "e = dropWhile isspace (rev d)"
  have t: "strip s = rev e" by (simp add: strip_def d_def e_def)
  with False have e: "e \<noteq> []" by simp
  then have d: "d \<noteq> []" by (auto simp: e_def)
  have "\<not> isspace (hd e)" using e unfolding e_def by (rule hd_dropWhile)
  then have l: "\<not> isspace (last (strip s))" using e by (simp add: t last_rev)
  have "rev d = takeWhile isspace (rev d) @ e" by (simp add: e_def)
  then have "last (rev d) = last e" using e by (metis last_appendR)
  then have "hd (strip s) = hd d" using d e by (simp add: t hd_rev last_rev)
  moreover have "\<not> isspace (hd d)" using d unfolding d_def by (rule hd_dropWhile)
  ultimately show ?thesis using l by simp
qed

lemma strip_idem: "strip (strip s) = strip s"
  using strip_ends [of s] by (rule strip_fixed)

lemma length_strip_le: "length (strip s) \<le> length s"
proof -
  have "length (dropWhile isspace (rev (dropWhile isspace s))) \<le> length (rev (dropWhile isspace s))"
    by (rule length_dropWhile_le)
  also have "\<dots> \<le> length s" by (simp add: length_dropWhile_le)
  finally show ?thesis by (simp add: strip_def)
qed

lemma cleaned_group_chain:
  "cleaned_group g = strip (foldl (\<lambda>s old. replace old [] s) g removed_substrings)"
  by (simp add: cleaned_group_def removed_substrings_def)

lemma chain_absent:
  "\<forall>old \<in> set olds. old \<noteq> [] \<and> \<not> contains s old \<Longrightarrow>
     foldl (\<lambda>s old. replace old [] s) s olds = s"
  by (induction olds) (simp_all add: replace_absent)

lemma chain_le:
  "\<forall>old \<in> set olds. old \<noteq> [] \<Longrightarrow> length (foldl (\<lambda>s old. replace old [] s) s olds) \<le> length s"
proof (induction olds arbitrary: s)
  case Nil
  then show ?case by simp
next
  case (Cons old olds)
  then have "length (foldl (\<lambda>s old. replace old [] s) (replace old [] s) olds) \<le> length (replace old [] s)"
    by simp
  also have "\<dots> \<le> length s" using Cons.prems by (simp add: length_replace_le)
  finally show ?case by simp
qed

lemma chain_less:
  "\<forall>old \<in> set olds. old \<noteq> [] \<Longrightarrow> \<exists>old \<in> set olds. contains s old \<Longrightarrow>
     length (foldl (\<lambda>s old. replace old [] s) s olds) < length s"
proof (induction olds)
  case Nil
  then show ?case by simp
next
  case (Cons old olds)
  show ?case
  proof (cases "contains s old")
    case True
    have "length (foldl (\<lambda>s old. replace old [] s) (replace old [] s) olds) \<le> length (replace old [] s)"
      using Cons.prems(1) by (simp add: chain_le)
    also have "\<dots> < length s" using True Cons.prems(1) by (simp add: length_replace_less)
    finally show ?thesis by simp
  next
    case False
    with Cons.prems have "replace old [] s = s" and "\<exists>old \<in> set olds. contains s old"
      by (simp_all add: replace_absent)
    with Cons show ?thesis by simp
  qed
qed

lemma removed_nonempty: "\<forall>old \<in> set removed_substrings. old \<noteq> []"
  by (simp add: removed_substrings_def)

section \<open>Retries and pagination\<close>

declare make_call_loop.simps [simp del]

lemma make_call_loop_bound:
  "snd (make_call_loop server randint attempts sent) \<le> sent + length attempts"
proof (induction attempts arbitrary: sent)
  case Nil
  show ?case by (simp add: make_call_loop.simps)
next
  case (Cons attempt attempts)
  have "snd (make_call_loop server randint attempts (Suc sent)) \<le> Suc sent + length attempts"
    by (rule Cons.IH)
  then show ?case
    by (simp add: make_call_loop.simps split: http.split option.split)
qed

lemma make_call_loop_retries:
  "retries (server attempt) \<Longrightarrow>
     make_call_loop server randint (attempt # attempts) sent
       = make_call_loop server randint attempts (Suc sent)"
proof -
  assume a: "retries (server attempt)"
  have "\<not> sleep_raises (2 ^ attempt + int (randint attempt mod 6))" if "attempt < 4"
  proof -
    have "(2::int) ^ attempt \<le> 2 ^ 4" using that by (intro power_increasing) simp_all
    moreover have "int (randint attempt mod 6) < 6" by simp
    moreover have "(0::int) < 2 ^ attempt" by simp
    ultimately show ?thesis by (simp add: sleep_raises_def; linarith)
  qed
  with a show ?thesis
    by (auto simp: make_call_loop.simps retries_def retryable_def retry_wait_def
        split: http.splits retry_after_header.splits)
qed

lemma make_call_loop_aborts:
  "aborts (server attempt) \<Longrightarrow>
     make_call_loop server randint (attempt # attempts) sent = (Returns None, Suc sent)"
  by (auto simp: make_call_loop.simps aborts_def split: http.splits)

lemma make_call_loop_exhausted:
  "\<forall>attempt \<in> set attempts. retries (server attempt) \<Longrightarrow>
     make_call_loop server randint attempts sent = (Returns None, sent + length attempts)"
  by (induction attempts arbitrary: sent)
    (simp_all add: make_call_loop_retries make_call_loop.simps(1))

lemma make_call_aborts:
  assumes "k \<in> {1, 2, 3, 4}" and "\<forall>attempt \<in> {1..<k}. retries (server attempt)"
    and "aborts (server k)"
  shows "make_call server randint = (Returns None, k)"
proof -
  have "make_call_loop server randint (pre @ k # post) sent = (Returns None, sent + length pre + 1)"
    if "\<forall>attempt \<in> set pre. retries (server attempt)" for pre post sent
    using that assms(3)
    by (induction pre arbitrary: sent) (simp_all add: make_call_loop_retries make_call_loop_aborts)
  note run = this
  from assms(1) consider "k = 1" | "k = 2" | "k = 3" | "k = 4" by auto
  then show ?thesis
  proof cases
    case 1
    with run [of "[]" "[2, 3, 4]" 0] show ?thesis by (simp add: make_call_def)
  next
    case 2
    with assms(2) run [of "[1]" "[3, 4]" 0] show ?thesis by (simp add: make_call_def)
  next
    case 3
    with assms(2) have "\<forall>attempt \<in> set [1, 2]. retries (server attempt)" by auto
    with 3 run [of "[1, 2]" "[4]" 0] show ?thesis by (simp add: make_call_def)
  next
    case 4
    with assms(2) have "\<forall>attempt \<in> set [1, 2, 3]. retries (server attempt)" by auto
    with 4 run [of "[1, 2, 3]" "[]" 0] show ?thesis by (simp add: make_call_def)
  qed
qed

text \<open>
  \<open>make_call\<close> never makes a fifth request, and makes four when every attempt is
  answered with a retryable status code and a \<open>Retry-After\<close> header that is absent or an
  integer that \<open>sleep\<close> accepts.
\<close>

lemma make_call_at_most_four: "snd (make_call server randint) \<le> 4"
  using make_call_loop_bound [of server randint "[1, 2, 3, 4]" 0] by (simp add: make_call_def)

lemma make_call_four_attempts:
  assumes "\<forall>attempt \<in> {1, 2, 3, 4}. retries (server attempt)"
  shows "make_call server randint = (Returns None, 4)"
proof -
  from assms have "\<forall>attempt \<in> set [1, 2, 3, 4]. retries (server attempt)" by simp
  then have "make_call_loop server randint [1, 2, 3, 4] 0
      = (Returns None, 0 + length [1, 2, 3, 4 :: nat])"
    by (rule make_call_loop_exhausted)
  then show ?thesis by (simp add: make_call_def)
qed

lemma busy_server_exhausted: "make_call busy_server (no_jitter 0) = (Returns None, 4)"
  by (rule make_call_four_attempts)
    (simp add: busy_server_def status_response_def retries_def retryable_def)

text \<open>The loop of \<open>adobe_license_monitor.py\<close>: one more page, the last page, a failed call, a run of pages, and no end without a last page.\<close>

lemma fetch_pages_more:
  "fst (make_call (server i) (randint i)) = Returns (Some (Page us False)) \<Longrightarrow>
     fetch_pages server randint i acc requests
       = fetch_pages server randint (Suc i) (acc @ us)
           (requests @ requests_for server randint i)"
  by (subst fetch_pages.simps) simp

lemma fetch_pages_last:
  "fst (make_call (server i) (randint i)) = Returns (Some (Page us True)) \<Longrightarrow>
     fetch_pages server randint i acc requests
       = Some (Returns (acc @ us), requests @ requests_for server randint i)"
  by (subst fetch_pages.simps) simp

lemma fetch_pages_failed:
  "fst (make_call (server i) (randint i)) = Returns None \<Longrightarrow>
     fetch_pages server randint i acc requests
       = Some (Returns acc, requests @ requests_for server randint i)"
  by (subst fetch_pages.simps) simp

lemma fetch_pages_run:
  "(\<And>p. p < n \<Longrightarrow> fst (make_call (server (i + p)) (randint (i + p)))
        = Returns (Some (Page (us (i + p)) False))) \<Longrightarrow>
   fetch_pages server randint i acc requests
     = fetch_pages server randint (i + n) (acc @ concat (map us [i..<i + n]))
         (requests @ concat (map (requests_for server randint) [i..<i + n]))"
proof (induction n arbitrary: i acc requests)
  case 0
  show ?case by simp
next
  case (Suc n)
  have first: "fst (make_call (server i) (randint i)) = Returns (Some (Page (us i) False))"
    using Suc.prems [of 0] by simp
  have rest: "fst (make_call (server (Suc i + p)) (randint (Suc i + p)))
        = Returns (Some (Page (us (Suc i + p)) False))" if "p < n" for p
    using Suc.prems [of "Suc p"] that by simp
  have "fetch_pages server randint i acc requests
      = fetch_pages server randint (Suc i) (acc @ us i)
          (requests @ requests_for server randint i)"
    using first by (rule fetch_pages_more)
  also have "\<dots> = fetch_pages server randint (Suc i + n)
      ((acc @ us i) @ concat (map us [Suc i..<Suc i + n]))
      ((requests @ requests_for server randint i)
        @ concat (map (requests_for server randint) [Suc i..<Suc i + n]))"
    using rest by (rule Suc.IH)
  also have "\<dots> = fetch_pages server randint (i + Suc n)
      (acc @ concat (map us [i..<i + Suc n]))
      (requests @ concat (map (requests_for server randint) [i..<i + Suc n]))"
    by (simp add: upt_conv_Cons del: upt_Suc)
  finally show ?case .
qed

lemma fetch_pages_forever:
  assumes "\<forall>p. \<exists>us. fst (make_call (server p) (randint p)) = Returns (Some (Page us False))"
  shows "fetch_pages server randint i acc requests = None"
proof (rule ccontr)
  assume "fetch_pages server randint i acc requests \<noteq> None"
  then obtain y where y: "fetch_pages server randint i acc requests = Some y" by auto
  let ?Q = "\<lambda>s r. \<forall>p. \<exists>us. fst (make_call (s p) (r p)) = Returns (Some (Page us False))"
  have "?Q server randint \<longrightarrow> False"
  proof (rule fetch_pages.raw_induct [where P = "\<lambda>s r i acc c y. ?Q s r \<longrightarrow> False" and y = y],
      goal_cases)
    case (1 f s r j a c z)
    show ?case
    proof
      assume q: "?Q s r"
      then obtain us where "fst (make_call (s j) (r j)) = Returns (Some (Page us False))"
        by blast
      with 1(2) have "f s r (Suc j) (a @ us) (c @ requests_for s r j) = Some z" by simp
      from 1(1) [OF this] q show False by simp
    qed
  qed (rule y)
  with assms show False by simp
qed

text \<open>The same for the loop of \<open>refresh_adobe_license_monitor.py\<close>.\<close>

lemma fetch_pages_refresh_more:
  "server i = Responds r \<Longrightarrow> status_code r = 200 \<Longrightarrow> body r = Some (Page us False) \<Longrightarrow>
     fetch_pages_refresh server i acc called
       = fetch_pages_refresh server (Suc i) (acc @ us) (called @ [i])"
  by (subst fetch_pages_refresh.simps) simp

lemma fetch_pages_refresh_last:
  "server i = Responds r \<Longrightarrow> status_code r = 200 \<Longrightarrow> body r = Some (Page us True) \<Longrightarrow>
     fetch_pages_refresh server i acc called = Some (Returns (acc @ us), called @ [i])"
  by (subst fetch_pages_refresh.simps) simp

lemma fetch_pages_refresh_failed:
  "server i = Responds r \<Longrightarrow> status_code r \<noteq> 200 \<Longrightarrow>
     fetch_pages_refresh server i acc called = Some (Returns acc, called @ [i])"
  by (subst fetch_pages_refresh.simps) simp

lemma fetch_pages_refresh_raises:
  "server i = Raises \<Longrightarrow>
     fetch_pages_refresh server i acc called = Some (Exception, called @ [i])"
  by (subst fetch_pages_refresh.simps) simp

lemma fetch_pages_refresh_run:
  "(\<And>p. p < n \<Longrightarrow> serves (server (i + p)) (us (i + p)) False) \<Longrightarrow>
   fetch_pages_refresh server i acc called
     = fetch_pages_refresh server (i + n) (acc @ concat (map us [i..<i + n])) (called @ [i..<i + n])"
proof (induction n arbitrary: i acc called)
  case 0
  show ?case by simp
next
  case (Suc n)
  have "serves (server i) (us i) False" using Suc.prems [of 0] by simp
  then have "fetch_pages_refresh server i acc called
      = fetch_pages_refresh server (Suc i) (acc @ us i) (called @ [i])"
    by (auto simp: serves_def split: http.splits intro: fetch_pages_refresh_more)
  also have "\<dots> = fetch_pages_refresh server (Suc i + n)
      ((acc @ us i) @ concat (map us [Suc i..<Suc i + n])) ((called @ [i]) @ [Suc i..<Suc i + n])"
  proof (rule Suc.IH)
    fix p assume "p < n"
    then show "serves (server (Suc i + p)) (us (Suc i + p)) False"
      using Suc.prems [of "Suc p"] by simp
  qed
  also have "\<dots> = fetch_pages_refresh server (i + Suc n)
      (acc @ concat (map us [i..<i + Suc n])) (called @ [i..<i + Suc n])"
    by (simp add: upt_conv_Cons del: upt_Suc)
  finally show ?case .
qed

lemma fetch_pages_refresh_forever:
  assumes "\<forall>p. \<exists>us. serves (server p) us False"
  shows "fetch_pages_refresh server i acc called = None"
proof (rule ccontr)
  assume "fetch_pages_refresh server i acc called \<noteq> None"
  then obtain y where y: "fetch_pages_refresh server i acc called = Some y" by auto
  let ?Q = "\<lambda>s. \<forall>p. \<exists>us. serves (s p) us False"
  have "?Q server \<longrightarrow> False"
  proof (rule fetch_pages_refresh.raw_induct [where P = "\<lambda>s i acc c y. ?Q s \<longrightarrow> False" and y = y],
      goal_cases)
    case (1 f s j a c z)
    show ?case
    proof
      assume q: "?Q s"
      then obtain us where "serves (s j) us False" by blast
      with 1(2) have "f s (Suc j) (a @ us) (c @ [j]) = Some z"
        by (auto simp: serves_def split: http.splits)
      from 1(1) [OF this] q show False by simp
    qed
  qed (rule y)
  with assms show False by simp
qed

section \<open>The report lines\<close>

lemma digits_not_zero: "0 < n \<Longrightarrow> digits n \<noteq> ''0''"
proof -
  assume "0 < n"
  show ?thesis
  proof (cases "n < 10")
    case True
    have "char_of (48 + n) \<noteq> CHR ''0''"
    proof
      assume "char_of (48 + n) = CHR ''0''"
      then have "(of_char (char_of (48 + n)) :: nat) = of_char CHR ''0''" by simp
      with True \<open>0 < n\<close> show False by simp
    qed
    with True show ?thesis by (simp add: digits.simps)
  next
    case False
    have "digits (n div 10) \<noteq> []" by (subst digits.simps) simp
    with False show ?thesis by (subst digits.simps) simp
  qed
qed

lemma str_int_not_zero: "1 \<le> i \<Longrightarrow> str_int i \<noteq> ''0''"
  by (simp add: str_int_def digits_not_zero)

lemma license_unit:
  "license_name \<noteq> ''Adobe Stock Credits'' \<Longrightarrow>
     unit_label license_name used = (if used > 1 then ''Licenses'' else ''License'')"
  by (simp add: unit_label_def base_unit_def)

lemma total_unknown:
  "license_name \<notin> fst ` set LICENSE_MAPPING \<Longrightarrow> format_total (total_of license_name) = ''Unknown''"
  by (simp add: total_of_def map_of_eq_None_iff [THEN iffD2])

section \<open>The claims\<close>

subsection \<open>The aggregator\<close>

text \<open>
  C1, as amended. For every list of users and every product name \<open>p\<close>, the count the
  aggregator of \<open>refresh_adobe_license_monitor.py\<close> holds for \<open>p\<close> is the number of group
  strings, over all users, that are not in \<open>EXCLUDED_GROUPS\<close> and that clean to \<open>p\<close>; a
  product no such group cleans to has no entry. The aggregator of
  \<open>adobe_license_monitor.py\<close> has no exclusion list: it counts every group string in the
  same way. Each product has one entry.
\<close>

theorem counts_per_product:
  "map_of (license_counts_refresh us) p =
     (let n = length (filter (\<lambda>g. g \<notin> set EXCLUDED_GROUPS \<and> cleaned_group g = p)
                (concat (map get_groups us)))
      in if n = 0 then None else Some (int n))
   \<and> map_of (license_counts us) p =
     (let n = length (filter (\<lambda>g. cleaned_group g = p) (concat (map get_groups us)))
      in if n = 0 then None else Some (int n))
   \<and> distinct (map fst (license_counts_refresh us))
   \<and> distinct (map fst (license_counts us))"
  by (simp add: license_counts_flat license_counts_refresh_flat lookup_tally distinct_tally)

theorem counts_per_product_witness:
  "map_of (license_counts_refresh
      [member_of [''Acrobat Users'', ''Default Photoshop - 100 GB configuration''],
       member_of [''Photoshop'']]) ''Photoshop'' = Some 2
   \<and> map_of (license_counts_refresh
      [member_of [''Acrobat Users'', ''Default Photoshop - 100 GB configuration''],
       member_of [''Photoshop'']]) ''Acrobat Users'' = None
   \<and> map_of (license_counts
      [member_of [''Acrobat Users'', ''Default Photoshop - 100 GB configuration''],
       member_of [''Photoshop'']]) ''Acrobat Users'' = Some 1"
proof -
  have c: "cleaned_group ''Acrobat Users'' = ''Acrobat Users''"
    "cleaned_group ''Default Photoshop - 100 GB configuration'' = ''Photoshop''"
    "cleaned_group ''Photoshop'' = ''Photoshop''"
    by code_simp+
  have e: "''Default Photoshop - 100 GB configuration'' \<notin> set EXCLUDED_GROUPS"
    "''Photoshop'' \<notin> set EXCLUDED_GROUPS" "''Acrobat Users'' \<in> set EXCLUDED_GROUPS"
    by (simp_all add: EXCLUDED_GROUPS_def)
  show ?thesis
    using counts_per_product
      [of "[member_of [''Acrobat Users'', ''Default Photoshop - 100 GB configuration''],
            member_of [''Photoshop'']]" "''Photoshop''"]
      counts_per_product
      [of "[member_of [''Acrobat Users'', ''Default Photoshop - 100 GB configuration''],
            member_of [''Photoshop'']]" "''Acrobat Users''"]
    by (simp add: member_of_def get_groups_def c e)
qed

text \<open>
  The claim as stated fails for \<open>adobe_license_monitor.py\<close>: a group of the exclusion
  list of the other script is counted and reported.
\<close>

theorem exclusion_counterexample:
  "''Acrobat Users'' \<in> set EXCLUDED_GROUPS
   \<and> license_counts [member_of [''Acrobat Users'']] = [(''Acrobat Users'', 1)]
   \<and> summarize_licenses [member_of [''Acrobat Users'']] = ''Acrobat Users: 1 of Unknown License''"
proof -
  have "''Acrobat Users'' \<in> set EXCLUDED_GROUPS" by (simp add: EXCLUDED_GROUPS_def)
  moreover have "license_counts [member_of [''Acrobat Users'']] = [(''Acrobat Users'', 1)]"
    by code_simp
  moreover have "summarize_licenses [member_of [''Acrobat Users'']]
      = ''Acrobat Users: 1 of Unknown License''" by code_simp
  ultimately show ?thesis by simp
qed

text \<open>
  C7, as amended. Permuting the list of users changes neither the count of any product
  nor the lines of the report taken as a multiset, in both scripts. The lines of the
  string \<open>summarize_licenses\<close> returns stand in the order in which the products first
  occur among the group strings counted, each with the number of group strings that
  clean to it, so the string itself is not the same for every permutation.
\<close>

theorem counts_order_independent:
  "(mset us = mset us' \<longrightarrow>
      map_of (license_counts us) = map_of (license_counts us')
      \<and> mset (summary (license_counts us)) = mset (summary (license_counts us'))
      \<and> map_of (license_counts_refresh us) = map_of (license_counts_refresh us')
      \<and> mset (summary (license_counts_refresh us)) = mset (summary (license_counts_refresh us')))
   \<and> summarize_licenses us =
       join [CHR 0x0A]
         (map (\<lambda>p. summary_line p
                 (int (length (filter (\<lambda>g. cleaned_group g = p) (concat (map get_groups us))))))
           (rev (remdups (rev (map cleaned_group (concat (map get_groups us)))))))
   \<and> summarize_licenses_refresh us =
       join [CHR 0x0A]
         (map (\<lambda>p. summary_line p
                 (int (length (filter (\<lambda>g. cleaned_group g = p)
                   (filter (\<lambda>g. g \<notin> set EXCLUDED_GROUPS) (concat (map get_groups us)))))))
           (rev (remdups (rev (map cleaned_group
             (filter (\<lambda>g. g \<notin> set EXCLUDED_GROUPS) (concat (map get_groups us))))))))"
proof (intro conjI impI)
  let ?gs = "concat (map get_groups us)" and ?gs' = "concat (map get_groups us')"
  let ?P = "\<lambda>g. g \<notin> set EXCLUDED_GROUPS"
  assume "mset us = mset us'"
  then have a: "mset ?gs = mset ?gs'" by (rule mset_groups_perm)
  then have b: "mset (filter ?P ?gs) = mset (filter ?P ?gs')" by (simp only: mset_filter)
  show "map_of (license_counts us) = map_of (license_counts us')"
    by (simp only: license_counts_flat tally_perm [OF a])
  show "mset (summary (license_counts us)) = mset (summary (license_counts us'))"
    by (simp only: license_counts_flat summary_perm [OF tally_items_perm [OF a]])
  show "map_of (license_counts_refresh us) = map_of (license_counts_refresh us')"
    by (simp only: license_counts_refresh_flat tally_perm [OF b])
  show "mset (summary (license_counts_refresh us)) = mset (summary (license_counts_refresh us'))"
    by (simp only: license_counts_refresh_flat summary_perm [OF tally_items_perm [OF b]])
next
  show "summarize_licenses us =
       join [CHR 0x0A]
         (map (\<lambda>p. summary_line p
                 (int (length (filter (\<lambda>g. cleaned_group g = p) (concat (map get_groups us))))))
           (rev (remdups (rev (map cleaned_group (concat (map get_groups us)))))))"
    by (simp only: summarize_licenses_def license_counts_flat summary_tally)
next
  show "summarize_licenses_refresh us =
       join [CHR 0x0A]
         (map (\<lambda>p. summary_line p
                 (int (length (filter (\<lambda>g. cleaned_group g = p)
                   (filter (\<lambda>g. g \<notin> set EXCLUDED_GROUPS) (concat (map get_groups us)))))))
           (rev (remdups (rev (map cleaned_group
             (filter (\<lambda>g. g \<notin> set EXCLUDED_GROUPS) (concat (map get_groups us))))))))"
    by (simp only: summarize_licenses_refresh_def license_counts_refresh_flat summary_tally)
qed

theorem counts_order_independent_witness:
  "map_of (license_counts [member_of [''Photoshop''], member_of [''Audition'']])
     = map_of (license_counts [member_of [''Audition''], member_of [''Photoshop'']])
   \<and> mset (summary (license_counts [member_of [''Photoshop''], member_of [''Audition'']]))
     = mset (summary (license_counts [member_of [''Audition''], member_of [''Photoshop'']]))
   \<and> summarize_licenses [member_of [''Audition''], member_of [''Photoshop'', ''Audition'']]
     = join [CHR 0x0A] [summary_line ''Audition'' 2, summary_line ''Photoshop'' 1]"
proof -
  have p: "mset [member_of [''Photoshop''], member_of [''Audition'']]
      = mset [member_of [''Audition''], member_of [''Photoshop'']]"
    by (simp add: add_mset_commute)
  have c: "cleaned_group ''Audition'' = ''Audition''" "cleaned_group ''Photoshop'' = ''Photoshop''"
    by code_simp+
  have "summarize_licenses [member_of [''Audition''], member_of [''Photoshop'', ''Audition'']]
     = join [CHR 0x0A] [summary_line ''Audition'' 2, summary_line ''Photoshop'' 1]"
    using counts_order_independent
      [of "[member_of [''Audition''], member_of [''Photoshop'', ''Audition'']]" "[]"]
    by (simp add: member_of_def get_groups_def c)
  with p counts_order_independent
      [of "[member_of [''Photoshop''], member_of [''Audition'']]"
          "[member_of [''Audition''], member_of [''Photoshop'']]"]
  show ?thesis by simp
qed

text \<open>
  The claim as stated fails: two users in the two orders give two different reports.
\<close>

theorem report_order_counterexample:
  "mset [member_of [''Photoshop''], member_of [''Audition'']]
     = mset [member_of [''Audition''], member_of [''Photoshop'']]
   \<and> summarize_licenses [member_of [''Photoshop''], member_of [''Audition'']]
       = ''Photoshop: 1 of 14 License'' @ [CHR 0x0A] @ ''Audition: 1 of 2 License''
   \<and> summarize_licenses [member_of [''Audition''], member_of [''Photoshop'']]
       = ''Audition: 1 of 2 License'' @ [CHR 0x0A] @ ''Photoshop: 1 of 14 License''
   \<and> summarize_licenses [member_of [''Photoshop''], member_of [''Audition'']]
       \<noteq> summarize_licenses [member_of [''Audition''], member_of [''Photoshop'']]"
proof -
  have a: "summarize_licenses [member_of [''Photoshop''], member_of [''Audition'']]
       = ''Photoshop: 1 of 14 License'' @ [CHR 0x0A] @ ''Audition: 1 of 2 License''"
    by code_simp
  have b: "summarize_licenses [member_of [''Audition''], member_of [''Photoshop'']]
       = ''Audition: 1 of 2 License'' @ [CHR 0x0A] @ ''Photoshop: 1 of 14 License''"
    by code_simp
  have c: "mset [member_of [''Photoshop''], member_of [''Audition'']]
     = mset [member_of [''Audition''], member_of [''Photoshop'']]"
    by (simp add: add_mset_commute)
  show ?thesis unfolding a b using c by simp
qed

text \<open>
  C8. The counts add up to the number of group strings counted: those not in
  \<open>EXCLUDED_GROUPS\<close> in \<open>refresh_adobe_license_monitor.py\<close>, all of them in
  \<open>adobe_license_monitor.py\<close>.
\<close>

theorem memberships_conserved:
  "sum_list (map snd (license_counts_refresh us))
     = int (length (filter (\<lambda>g. g \<notin> set EXCLUDED_GROUPS) (concat (map get_groups us))))
   \<and> sum_list (map snd (license_counts us)) = int (length (concat (map get_groups us)))"
  by (simp add: license_counts_flat license_counts_refresh_flat sum_tally)

theorem memberships_conserved_witness:
  "sum_list (map snd (license_counts_refresh
      [member_of [''Acrobat Users'', ''Default Photoshop - 100 GB configuration''],
       member_of [''Photoshop'']])) = 2
   \<and> sum_list (map snd (license_counts
      [member_of [''Acrobat Users'', ''Default Photoshop - 100 GB configuration''],
       member_of [''Photoshop'']])) = 3"
proof -
  let ?us = "[member_of [''Acrobat Users'', ''Default Photoshop - 100 GB configuration''],
       member_of [''Photoshop'']]"
  have "int (length (filter (\<lambda>g. g \<notin> set EXCLUDED_GROUPS) (concat (map get_groups ?us)))) = 2"
    by code_simp
  moreover have "int (length (concat (map get_groups ?us))) = 3" by code_simp
  ultimately show ?thesis using memberships_conserved [of ?us] by simp
qed

text \<open>
  C9. Every count in the dictionary is at least 1, in both scripts, so every line of the
  report is the line of a product with a used count of at least 1, and the count it
  prints is not \<open>0\<close>.
\<close>

theorem used_at_least_one:
  "(\<forall>(license_name, used) \<in> set (license_counts us). 1 \<le> used)
   \<and> (\<forall>(license_name, used) \<in> set (license_counts_refresh us). 1 \<le> used)
   \<and> (\<forall>line \<in> set (summary (license_counts us)) \<union> set (summary (license_counts_refresh us)).
        \<exists>license_name used. line = summary_line license_name used \<and> 1 \<le> used
          \<and> str_int used \<noteq> ''0'')"
proof -
  have a: "\<forall>(license_name, used) \<in> set (license_counts us). 1 \<le> used"
    unfolding license_counts_flat by (rule positive_tally) simp
  have b: "\<forall>(license_name, used) \<in> set (license_counts_refresh us). 1 \<le> used"
    unfolding license_counts_refresh_flat by (rule positive_tally) simp
  have c: "\<exists>license_name used. line = summary_line license_name used \<and> 1 \<le> used
          \<and> str_int used \<noteq> ''0''"
    if "line \<in> set (summary d)" and "\<forall>(license_name, used) \<in> set d. 1 \<le> used" for line d
    using that by (fastforce simp: summary_def str_int_not_zero)
  from a b c show ?thesis by blast
qed

theorem used_at_least_one_witness:
  "list_all (\<lambda>(license_name, used). 1 \<le> used)
     (license_counts [member_of [''Photoshop'', ''Default Photoshop - 100 GB configuration'']])
   \<and> license_counts [member_of [''Photoshop'', ''Default Photoshop - 100 GB configuration'']]
       = [(''Photoshop'', 2)]"
proof -
  have "license_counts [member_of [''Photoshop'', ''Default Photoshop - 100 GB configuration'']]
       = [(''Photoshop'', 2)]" by code_simp
  then show ?thesis
    using used_at_least_one
      [of "[member_of [''Photoshop'', ''Default Photoshop - 100 GB configuration'']]"]
    by simp
qed

subsection \<open>The report lines\<close>

text \<open>
  C6. The unit label is \<open>License\<close> for a count of 1 and \<open>Licenses\<close> for a larger count
  for every product but one: for \<open>Adobe Stock Credits\<close> the label \<open>Credits\<close>, a plural, is
  printed for a count of 1, and \<open>Creditss\<close> for a larger count. The two scripts evaluated
  on one and on two members of that group:
\<close>

theorem stock_credits_report:
  "summarize_licenses [member_of [''Adobe Stock Credits'']]
     = ''Adobe Stock Credits: 1 of Unknown Credits''
   \<and> summarize_licenses
       [member_of [''Adobe Stock Credits''], member_of [''Adobe Stock Credits'']]
     = ''Adobe Stock Credits: 2 of Unknown Creditss''
   \<and> summarize_licenses_refresh
       [member_of [''Adobe Stock Credits''], member_of [''Adobe Stock Credits'']]
     = ''Adobe Stock Credits: 2 of Unknown Creditss''"
  by code_simp

text \<open>
  C10. For the product \<open>Adobe Stock Credits\<close> with used count \<open>n\<close> the unit label is
  \<open>Credits\<close> when \<open>n = 1\<close> and \<open>Creditss\<close> when \<open>n > 1\<close>. Whenever \<open>n\<close> group strings
  counted clean to that name, with \<open>n\<close> at least 1, the list \<open>summary\<close> holds the line
  \<open>Adobe Stock Credits: n of Unknown\<close> with that label, and the string
  \<open>summarize_licenses\<close> returns is the lines joined with that line among them, in
  both scripts.
\<close>

theorem stock_credits_unit:
  "(n = 1 \<longrightarrow> unit_label ''Adobe Stock Credits'' n = ''Credits'')
   \<and> (1 < n \<longrightarrow> unit_label ''Adobe Stock Credits'' n = ''Creditss'')
   \<and> (1 \<le> n \<and> n = int (length (filter (\<lambda>g. cleaned_group g = ''Adobe Stock Credits'')
                          (concat (map get_groups us)))) \<longrightarrow>
        ''Adobe Stock Credits: '' @ str_int n @ '' of Unknown ''
            @ (if n = 1 then ''Credits'' else ''Creditss'')
          \<in> set (summary (license_counts us))
        \<and> (\<exists>pre post. summarize_licenses us =
              join [CHR 0x0A]
                (pre @ (''Adobe Stock Credits: '' @ str_int n @ '' of Unknown ''
                          @ (if n = 1 then ''Credits'' else ''Creditss'')) # post)))
   \<and> (1 \<le> n \<and> n = int (length (filter
          (\<lambda>g. g \<notin> set EXCLUDED_GROUPS \<and> cleaned_group g = ''Adobe Stock Credits'')
          (concat (map get_groups us)))) \<longrightarrow>
        ''Adobe Stock Credits: '' @ str_int n @ '' of Unknown ''
            @ (if n = 1 then ''Credits'' else ''Creditss'')
          \<in> set (summary (license_counts_refresh us))
        \<and> (\<exists>pre post. summarize_licenses_refresh us =
              join [CHR 0x0A]
                (pre @ (''Adobe Stock Credits: '' @ str_int n @ '' of Unknown ''
                          @ (if n = 1 then ''Credits'' else ''Creditss'')) # post)))"
proof -
  let ?line = "''Adobe Stock Credits: '' @ str_int n @ '' of Unknown ''
            @ (if n = 1 then ''Credits'' else ''Creditss'')"
  have line: "summary_line ''Adobe Stock Credits'' n = ?line" if "1 \<le> n"
    using that
    by (simp add: unit_label_def base_unit_def summary_line_def total_of_def LICENSE_MAPPING_def)
  have emitted: "?line \<in> set (summary d) \<and> (\<exists>pre post. join [CHR 0x0A] (summary d) =
              join [CHR 0x0A] (pre @ ?line # post))"
    if "(''Adobe Stock Credits'', n) \<in> set d" and "\<forall>(k, v) \<in> set d. 1 \<le> v" for d
  proof -
    from that have "1 \<le> n" by auto
    from that(1) have "summary_line ''Adobe Stock Credits'' n \<in> set (summary d)"
      by (rule item_line)
    with line [OF \<open>1 \<le> n\<close>] have "?line \<in> set (summary d)" by simp
    then show ?thesis using line_in_join by blast
  qed
  have a: "\<forall>(k, v) \<in> set (license_counts us). 1 \<le> v"
    unfolding license_counts_flat by (rule positive_tally) simp
  have b: "\<forall>(k, v) \<in> set (license_counts_refresh us). 1 \<le> v"
    unfolding license_counts_refresh_flat by (rule positive_tally) simp
  have c: "(''Adobe Stock Credits'', n) \<in> set (license_counts us)"
    if "1 \<le> n \<and> n = int (length (filter (\<lambda>g. cleaned_group g = ''Adobe Stock Credits'')
                          (concat (map get_groups us))))"
  proof -
    from that have "map_of (license_counts us) ''Adobe Stock Credits'' = Some n"
      by (auto simp: license_counts_flat lookup_tally Let_def)
    then show ?thesis by (rule map_of_SomeD)
  qed
  have d: "(''Adobe Stock Credits'', n) \<in> set (license_counts_refresh us)"
    if "1 \<le> n \<and> n = int (length (filter
          (\<lambda>g. g \<notin> set EXCLUDED_GROUPS \<and> cleaned_group g = ''Adobe Stock Credits'')
          (concat (map get_groups us))))"
  proof -
    from that have "map_of (license_counts_refresh us) ''Adobe Stock Credits'' = Some n"
      by (auto simp: license_counts_refresh_flat lookup_tally Let_def)
    then show ?thesis by (rule map_of_SomeD)
  qed
  have e: "(n = 1 \<longrightarrow> unit_label ''Adobe Stock Credits'' n = ''Credits'')
      \<and> (1 < n \<longrightarrow> unit_label ''Adobe Stock Credits'' n = ''Creditss'')"
    by (simp add: unit_label_def base_unit_def)
  from c d emitted [OF _ a] emitted [OF _ b] e show ?thesis
    unfolding summarize_licenses_def summarize_licenses_refresh_def by blast
qed

theorem stock_credits_unit_witness:
  "unit_label ''Adobe Stock Credits'' 1 = ''Credits''
   \<and> unit_label ''Adobe Stock Credits'' 3 = ''Creditss''
   \<and> ''Adobe Stock Credits: 3 of Unknown Creditss''
       \<in> set (summary (license_counts
           [member_of [''Photoshop'', ''Adobe Stock Credits''],
            member_of [''Adobe Stock Credits'', ''Adobe Stock Credits'']]))
   \<and> summarize_licenses
         [member_of [''Photoshop'', ''Adobe Stock Credits''],
          member_of [''Adobe Stock Credits'', ''Adobe Stock Credits'']]
       = ''Photoshop: 1 of 14 License'' @ [CHR 0x0A] @ ''Adobe Stock Credits: 3 of Unknown Creditss''"
proof -
  let ?us = "[member_of [''Photoshop'', ''Adobe Stock Credits''],
            member_of [''Adobe Stock Credits'', ''Adobe Stock Credits'']]"
  have s: "str_int 3 = ''3''" by code_simp
  have r: "summarize_licenses ?us
       = ''Photoshop: 1 of 14 License'' @ [CHR 0x0A] @ ''Adobe Stock Credits: 3 of Unknown Creditss''"
    by code_simp
  have "(3::int) = int (length (filter (\<lambda>g. cleaned_group g = ''Adobe Stock Credits'')
                          (concat (map get_groups ?us))))"
  proof -
    have "cleaned_group ''Adobe Stock Credits'' = ''Adobe Stock Credits''"
      "cleaned_group ''Photoshop'' = ''Photoshop''" by code_simp+
    then show ?thesis by (simp add: member_of_def get_groups_def)
  qed
  with stock_credits_unit [of 3 ?us]
  have "''Adobe Stock Credits: '' @ str_int 3 @ '' of Unknown '' @ ''Creditss''
      \<in> set (summary (license_counts ?us))" by simp
  then have "''Adobe Stock Credits: 3 of Unknown Creditss'' \<in> set (summary (license_counts ?us))"
    by (simp add: s)
  with stock_credits_unit [of 1 ?us] stock_credits_unit [of 3 ?us] r show ?thesis by simp
qed

subsection \<open>Cleaning a group name\<close>

text \<open>
  C3, as amended. Cleaning a name twice gives the same as cleaning it once exactly when
  the name cleaned once contains none of the eight substrings the chain removes; when
  it contains one, cleaning it again gives a shorter string.
\<close>

theorem cleaned_twice:
  "(cleaned_group (cleaned_group g) = cleaned_group g
     \<longleftrightarrow> (\<forall>old \<in> set removed_substrings. \<not> contains (cleaned_group g) old))
   \<and> ((\<exists>old \<in> set removed_substrings. contains (cleaned_group g) old) \<longrightarrow>
        length (cleaned_group (cleaned_group g)) < length (cleaned_group g))"
proof -
  have shorter: "length (cleaned_group (cleaned_group g)) < length (cleaned_group g)"
    if "\<exists>old \<in> set removed_substrings. contains (cleaned_group g) old"
  proof -
    from removed_nonempty that
    have "length (foldl (\<lambda>s old. replace old [] s) (cleaned_group g) removed_substrings)
        < length (cleaned_group g)"
      by (rule chain_less)
    moreover have "length (cleaned_group (cleaned_group g))
        \<le> length (foldl (\<lambda>s old. replace old [] s) (cleaned_group g) removed_substrings)"
      by (subst cleaned_group_chain) (rule length_strip_le)
    ultimately show ?thesis by simp
  qed
  have same: "cleaned_group (cleaned_group g) = cleaned_group g"
    if "\<forall>old \<in> set removed_substrings. \<not> contains (cleaned_group g) old"
  proof -
    from removed_nonempty that
    have "foldl (\<lambda>s old. replace old [] s) (cleaned_group g) removed_substrings = cleaned_group g"
      by (intro chain_absent) simp
    then have "cleaned_group (cleaned_group g) = strip (cleaned_group g)"
      by (subst cleaned_group_chain) simp
    also have "\<dots> = cleaned_group g" by (simp add: cleaned_group_chain strip_idem)
    finally show ?thesis .
  qed
  from shorter same show ?thesis by (metis less_irrefl)
qed

theorem cleaned_twice_witness:
  "cleaned_group ''Default Acrobat Pro DC configuration'' = ''Acrobat Pro''
   \<and> cleaned_group (cleaned_group ''Default Acrobat Pro DC configuration'')
       = cleaned_group ''Default Acrobat Pro DC configuration''
   \<and> length (cleaned_group (cleaned_group ''Defa DCult Photoshop''))
       < length (cleaned_group ''Defa DCult Photoshop'')"
proof -
  have a: "cleaned_group ''Default Acrobat Pro DC configuration'' = ''Acrobat Pro''" by code_simp
  have "\<forall>old \<in> set removed_substrings. \<not> contains ''Acrobat Pro'' old"
    by (simp add: removed_substrings_def)
  then have first: "cleaned_group (cleaned_group ''Default Acrobat Pro DC configuration'')
       = cleaned_group ''Default Acrobat Pro DC configuration''"
    using cleaned_twice [of "''Default Acrobat Pro DC configuration''"] by (simp add: a)
  have b: "cleaned_group ''Defa DCult Photoshop'' = ''Default Photoshop''" by code_simp
  have "\<exists>old \<in> set removed_substrings. contains ''Default Photoshop'' old"
    by (simp add: removed_substrings_def)
  then have "length (cleaned_group (cleaned_group ''Defa DCult Photoshop''))
       < length (cleaned_group ''Defa DCult Photoshop'')"
    using cleaned_twice [of "''Defa DCult Photoshop''"] by (simp add: b)
  with a first show ?thesis by simp
qed

text \<open>
  The claim as stated fails: removing \<open>" DC"\<close> joins \<open>"Defa"\<close> and \<open>"ult "\<close> into a
  \<open>"Default "\<close> that the first replacement, already done, does not see again.
\<close>

theorem cleaned_twice_counterexample:
  "cleaned_group ''Defa DCult Photoshop'' = ''Default Photoshop''
   \<and> cleaned_group (cleaned_group ''Defa DCult Photoshop'') = ''Photoshop''
   \<and> cleaned_group (cleaned_group ''Defa DCult Photoshop'') \<noteq> cleaned_group ''Defa DCult Photoshop''"
proof -
  have a: "cleaned_group ''Defa DCult Photoshop'' = ''Default Photoshop''" by code_simp
  have b: "cleaned_group ''Default Photoshop'' = ''Photoshop''" by code_simp
  show ?thesis by (simp add: a b)
qed

subsection \<open>Retries\<close>

text \<open>
  C4. With every attempt answered 429, \<open>make_call\<close> stops after one request when the
  \<open>Retry-After\<close> header is an HTTP date (\<open>int\<close> raises inside \<open>try\<close> and the function
  returns \<open>None\<close>), and ends with an uncaught exception after one request when the header
  is an integer that \<open>sleep\<close> refuses (9223372037, or \<open>-1\<close>).
\<close>

theorem retry_after_unusable:
  "retryable 429
   \<and> dated_retry_server 1 = status_response 429 RetryAfterInvalid
   \<and> make_call dated_retry_server (no_jitter 0) = (Returns None, 1)
   \<and> huge_retry_server 1 = status_response 429 (RetryAfterInt 9223372037)
   \<and> make_call huge_retry_server (no_jitter 0) = (Exception, 1)
   \<and> negative_retry_server 1 = status_response 429 (RetryAfterInt (- 1))
   \<and> make_call negative_retry_server (no_jitter 0) = (Exception, 1)"
  by (simp add: retryable_def dated_retry_server_def huge_retry_server_def
      negative_retry_server_def status_response_def make_call_def make_call_loop.simps
      retry_wait_def sleep_raises_def)

subsection \<open>Pagination\<close>

text \<open>
  C2, as amended. The loop ends when a page reports \<open>lastPage\<close>, and also when the call
  for a page fails; as long as pages are answered without \<open>lastPage\<close> it goes on. If the
  pages 0 to \<open>n - 1\<close> are answered without it and page \<open>n\<close> with it, the fetcher returns
  the users of the pages 0 to \<open>n\<close> concatenated in this order, having made the requests
  for the pages 0, 1, ..., \<open>n\<close> in turn and no other. If every page is answered without
  it, the fetcher does not return. If the pages 0 to \<open>n - 1\<close> are answered without it and
  the call for page \<open>n\<close> fails (\<open>make_call\<close> returns \<open>None\<close>; in
  \<open>refresh_adobe_license_monitor.py\<close>, a status code other than 200), the fetcher
  returns the users of the pages 0 to \<open>n - 1\<close>. This holds for both scripts.
\<close>

theorem pagination:
  "(\<forall>n. (\<forall>p \<le> n. answers server randint p (us p) (p = n)) \<longrightarrow>
          get_users_in_org server randint
            = Some (Returns (concat (map us [0..<Suc n])),
                concat (map (requests_for server randint) [0..<Suc n])))
   \<and> (\<forall>n. (\<forall>p \<le> n. serves (server' p) (us p) (p = n)) \<longrightarrow>
          get_users_in_org_refresh server'
            = Some (Returns (concat (map us [0..<Suc n])), [0..<Suc n]))
   \<and> ((\<forall>p. \<exists>us. answers server randint p us False) \<longrightarrow>
          get_users_in_org server randint = None)
   \<and> ((\<forall>p. \<exists>us. serves (server' p) us False) \<longrightarrow>
          get_users_in_org_refresh server' = None)
   \<and> (\<forall>n. (\<forall>p < n. answers server randint p (us p) False)
            \<and> fst (make_call (server n) (randint n)) = Returns None \<longrightarrow>
          get_users_in_org server randint
            = Some (Returns (concat (map us [0..<n])),
                concat (map (requests_for server randint) [0..<Suc n])))
   \<and> (\<forall>n. (\<forall>p < n. serves (server' p) (us p) False) \<and> refuses (server' n) \<longrightarrow>
          get_users_in_org_refresh server'
            = Some (Returns (concat (map us [0..<n])), [0..<Suc n]))"
proof (intro conjI allI impI)
  fix n
  assume a: "\<forall>p \<le> n. answers server randint p (us p) (p = n)"
  have "fetch_pages server randint 0 [] []
      = fetch_pages server randint (0 + n) ([] @ concat (map us [0..<0 + n]))
          ([] @ concat (map (requests_for server randint) [0..<0 + n]))"
    using a by (intro fetch_pages_run) (simp add: answers_def)
  also have "\<dots> = Some (Returns (concat (map us [0..<n]) @ us n),
      concat (map (requests_for server randint) [0..<n]) @ requests_for server randint n)"
    using a by (simp add: answers_def fetch_pages_last)
  finally show "get_users_in_org server randint
      = Some (Returns (concat (map us [0..<Suc n])),
          concat (map (requests_for server randint) [0..<Suc n]))"
    by (simp add: get_users_in_org_def)
next
  fix n
  assume a: "\<forall>p \<le> n. serves (server' p) (us p) (p = n)"
  have "fetch_pages_refresh server' 0 [] []
      = fetch_pages_refresh server' (0 + n) ([] @ concat (map us [0..<0 + n])) ([] @ [0..<0 + n])"
  proof (rule fetch_pages_refresh_run)
    fix p assume "p < n"
    then have "p \<le> n" and "(p = n) = False" by simp_all
    with a have "serves (server' p) (us p) False" by metis
    then show "serves (server' (0 + p)) (us (0 + p)) False" by simp
  qed
  also have "\<dots> = Some (Returns (concat (map us [0..<n]) @ us n), [0..<n] @ [n])"
  proof -
    from a have "serves (server' n) (us n) True" by auto
    then show ?thesis
      by (auto simp: serves_def split: http.splits intro: fetch_pages_refresh_last)
  qed
  finally show "get_users_in_org_refresh server'
      = Some (Returns (concat (map us [0..<Suc n])), [0..<Suc n])"
    by (simp add: get_users_in_org_refresh_def)
next
  assume "\<forall>p. \<exists>us. answers server randint p us False"
  then have "\<forall>p. \<exists>us. fst (make_call (server p) (randint p)) = Returns (Some (Page us False))"
    by (simp add: answers_def)
  then show "get_users_in_org server randint = None"
    unfolding get_users_in_org_def by (rule fetch_pages_forever)
next
  assume "\<forall>p. \<exists>us. serves (server' p) us False"
  then show "get_users_in_org_refresh server' = None"
    unfolding get_users_in_org_refresh_def by (rule fetch_pages_refresh_forever)
next
  fix n
  assume a: "(\<forall>p < n. answers server randint p (us p) False)
            \<and> fst (make_call (server n) (randint n)) = Returns None"
  have "fetch_pages server randint 0 [] []
      = fetch_pages server randint (0 + n) ([] @ concat (map us [0..<0 + n]))
          ([] @ concat (map (requests_for server randint) [0..<0 + n]))"
    using a by (intro fetch_pages_run) (simp add: answers_def)
  also have "\<dots> = Some (Returns (concat (map us [0..<n])),
      concat (map (requests_for server randint) [0..<n]) @ requests_for server randint n)"
    using a by (simp add: fetch_pages_failed)
  finally show "get_users_in_org server randint
      = Some (Returns (concat (map us [0..<n])),
          concat (map (requests_for server randint) [0..<Suc n]))"
    by (simp add: get_users_in_org_def)
next
  fix n
  assume a: "(\<forall>p < n. serves (server' p) (us p) False) \<and> refuses (server' n)"
  have "fetch_pages_refresh server' 0 [] []
      = fetch_pages_refresh server' (0 + n) ([] @ concat (map us [0..<0 + n])) ([] @ [0..<0 + n])"
    using a by (intro fetch_pages_refresh_run) simp
  also have "\<dots> = Some (Returns (concat (map us [0..<n])), [0..<n] @ [n])"
    using a
    by (auto simp: refuses_def fetch_pages_refresh_failed split: http.splits)
  finally show "get_users_in_org_refresh server'
      = Some (Returns (concat (map us [0..<n])), [0..<Suc n])"
    by (simp add: get_users_in_org_refresh_def)
qed

theorem pagination_witness:
  "get_users_in_org slow_two_page_server no_jitter
     = Some (Returns [member_of [''Photoshop''], member_of [''Audition'']],
         [(0, 1), (0, 2), (0, 3), (1, 1), (1, 2), (1, 3)])
   \<and> get_users_in_org_refresh two_page_server
     = Some (Returns [member_of [''Photoshop''], member_of [''Audition'']], [0, 1])
   \<and> get_users_in_org slow_endless_server no_jitter = None
   \<and> get_users_in_org_refresh endless_server = None
   \<and> get_users_in_org slow_broken_server no_jitter
     = Some (Returns [member_of [''Photoshop'']], [(0, 1), (1, 1), (1, 2)])
   \<and> get_users_in_org_refresh broken_server
     = Some (Returns [member_of [''Photoshop'']], [0, 1])"
proof -
  have mc: "make_call (slow_two_page_server p) (no_jitter p)
      = (Returns (Some (Page (two_page_users p) (p \<noteq> 0))), 3)" for p
    by (simp add: make_call_def make_call_loop.simps slow_two_page_server_def
        two_page_server_def page_response_def status_response_def retryable_def retry_wait_def
        sleep_raises_def)
  have a: "\<forall>p \<le> 1. answers slow_two_page_server no_jitter p (two_page_users p) (p = 1)"
    by (auto simp: answers_def mc)
  have b: "\<forall>p \<le> 1. serves (two_page_server p) (two_page_users p) (p = 1)"
    by (auto simp: serves_def two_page_server_def page_response_def)
  have c: "\<forall>p. \<exists>us. answers slow_endless_server no_jitter p us False"
    by (simp add: answers_def make_call_def make_call_loop.simps slow_endless_server_def
        endless_server_def page_response_def status_response_def retryable_def retry_wait_def
        sleep_raises_def)
  have d: "\<forall>p. \<exists>us. serves (endless_server p) us False"
    by (simp add: serves_def endless_server_def page_response_def)
  have e: "concat (map two_page_users [0..<Suc 1])
      = [member_of [''Photoshop''], member_of [''Audition'']]"
    by (simp add: two_page_users_def)
  have f: "concat (map (requests_for slow_two_page_server no_jitter) [0..<Suc 1])
      = [(0, 1), (0, 2), (0, 3), (1, 1), (1, 2), (1, 3)]"
    using mc [of 0] mc [of 1] by (simp add: requests_for_def upt_rec)
  from a b
    pagination [of slow_two_page_server no_jitter two_page_users two_page_server]
  have "get_users_in_org slow_two_page_server no_jitter
       = Some (Returns (concat (map two_page_users [0..<Suc 1])),
           concat (map (requests_for slow_two_page_server no_jitter) [0..<Suc 1]))
     \<and> get_users_in_org_refresh two_page_server
       = Some (Returns (concat (map two_page_users [0..<Suc 1])), [0..<Suc 1])"
    by blast
  then have first: "get_users_in_org slow_two_page_server no_jitter
       = Some (Returns [member_of [''Photoshop''], member_of [''Audition'']],
           [(0, 1), (0, 2), (0, 3), (1, 1), (1, 2), (1, 3)])
     \<and> get_users_in_org_refresh two_page_server
       = Some (Returns [member_of [''Photoshop''], member_of [''Audition'']], [0, 1])"
    by (simp only: e f) simp
  from c d
    pagination [of slow_endless_server no_jitter "\<lambda>p. []" endless_server]
  have second: "get_users_in_org slow_endless_server no_jitter = None
     \<and> get_users_in_org_refresh endless_server = None"
    by blast
  have mc0: "make_call (slow_broken_server 0) (no_jitter 0)
      = (Returns (Some (Page [member_of [''Photoshop'']] False)), 1)"
    by (simp add: make_call_def make_call_loop.simps slow_broken_server_def page_response_def)
  have mc1: "make_call (slow_broken_server 1) (no_jitter 1) = (Returns None, 2)"
    by (simp add: make_call_def make_call_loop.simps slow_broken_server_def status_response_def
        retryable_def retry_wait_def sleep_raises_def)
  have g: "(\<forall>p < 1. answers slow_broken_server no_jitter p [member_of [''Photoshop'']] False)
      \<and> fst (make_call (slow_broken_server 1) (no_jitter 1)) = Returns None"
    using mc0 mc1 by (simp add: answers_def)
  have h: "(\<forall>p < 1. serves (broken_server p) [member_of [''Photoshop'']] False)
      \<and> refuses (broken_server 1)"
    by (simp add: serves_def refuses_def broken_server_def page_response_def status_response_def)
  have i: "concat (map (requests_for slow_broken_server no_jitter) [0..<Suc 1])
      = [(0, 1), (1, 1), (1, 2)]"
    using mc0 mc1 by (simp add: requests_for_def upt_rec)
  from g h
    pagination [of slow_broken_server no_jitter "\<lambda>p. [member_of [''Photoshop'']]" broken_server]
  have "get_users_in_org slow_broken_server no_jitter
       = Some (Returns (concat (map (\<lambda>p. [member_of [''Photoshop'']]) [0..<1])),
           concat (map (requests_for slow_broken_server no_jitter) [0..<Suc 1]))
     \<and> get_users_in_org_refresh broken_server
       = Some (Returns (concat (map (\<lambda>p. [member_of [''Photoshop'']]) [0..<1])), [0..<Suc 1])"
    by blast
  then have third: "get_users_in_org slow_broken_server no_jitter
       = Some (Returns [member_of [''Photoshop'']], [(0, 1), (1, 1), (1, 2)])
     \<and> get_users_in_org_refresh broken_server
       = Some (Returns [member_of [''Photoshop'']], [0, 1])"
    by (simp only: i) simp
  from first second third show ?thesis by simp
qed

text \<open>
  The claim as stated fails: the only request is answered 403, no response reports
  \<open>lastPage\<close>, and the loop ends.
\<close>

theorem pagination_counterexample:
  "forbidden_server_attempts 0 1 = status_response 403 NoRetryAfter
   \<and> get_users_in_org forbidden_server_attempts no_jitter = Some (Returns [], [(0, 1)])
   \<and> forbidden_server 0 = status_response 403 NoRetryAfter
   \<and> get_users_in_org_refresh forbidden_server = Some (Returns [], [0])"
proof -
  have "get_users_in_org forbidden_server_attempts no_jitter = Some (Returns [], [(0, 1)])"
    by code_simp
  moreover have "get_users_in_org_refresh forbidden_server = Some (Returns [], [0])"
    by code_simp
  ultimately show ?thesis
    by (simp add: forbidden_server_attempts_def forbidden_server_def)
qed

text \<open>
  C5, as amended. When the pages before page \<open>n\<close> were fetched and a request for page
  \<open>n\<close> fails for good (it raises, or its status code is neither 200 nor retryable), be
  it the first attempt of \<open>make_call\<close> or one after retries, that request is the last one
  made and \<open>get_users_in_org\<close> of \<open>adobe_license_monitor.py\<close> returns the users of the
  pages before \<open>n\<close>, so no users when \<open>n\<close> is 0. In \<open>refresh_adobe_license_monitor.py\<close>
  the same holds for a status code, and a request that raises ends the function with
  the exception.
\<close>

theorem fetch_aborts:
  "((\<forall>p<n. answers server randint p (us p) False) \<and> k \<in> {1, 2, 3, 4}
      \<and> (\<forall>attempt \<in> {1..<k}. retries (server n attempt)) \<and> aborts (server n k) \<longrightarrow>
     get_users_in_org server randint
       = Some (Returns (concat (map us [0..<n])),
           concat (map (requests_for server randint) [0..<n]) @ map (Pair n) [1..<Suc k]))
   \<and> ((\<forall>p<n. serves (server' p) (us p) False) \<and> aborts (server' n) \<longrightarrow>
     get_users_in_org_refresh server'
       = Some (if server' n = Raises then Exception else Returns (concat (map us [0..<n])),
           [0..<Suc n]))"
proof (intro conjI impI)
  assume a: "(\<forall>p<n. answers server randint p (us p) False) \<and> k \<in> {1, 2, 3, 4}
      \<and> (\<forall>attempt \<in> {1..<k}. retries (server n attempt)) \<and> aborts (server n k)"
  then have mc: "make_call (server n) (randint n) = (Returns None, k)"
    by (intro make_call_aborts) simp_all
  then have failed: "fst (make_call (server n) (randint n)) = Returns None" by simp
  from mc have last: "requests_for server randint n = map (Pair n) [1..<Suc k]"
    by (simp add: requests_for_def)
  have "fetch_pages server randint 0 [] []
      = fetch_pages server randint (0 + n) ([] @ concat (map us [0..<0 + n]))
          ([] @ concat (map (requests_for server randint) [0..<0 + n]))"
    using a by (intro fetch_pages_run) (simp add: answers_def)
  also have "\<dots> = Some (Returns (concat (map us [0..<n])),
      concat (map (requests_for server randint) [0..<n]) @ requests_for server randint n)"
    using failed by (simp add: fetch_pages_failed)
  finally show "get_users_in_org server randint
      = Some (Returns (concat (map us [0..<n])),
          concat (map (requests_for server randint) [0..<n]) @ map (Pair n) [1..<Suc k])"
    by (simp add: get_users_in_org_def last)
next
  assume a: "(\<forall>p<n. serves (server' p) (us p) False) \<and> aborts (server' n)"
  have "fetch_pages_refresh server' 0 [] []
      = fetch_pages_refresh server' (0 + n) ([] @ concat (map us [0..<0 + n])) ([] @ [0..<0 + n])"
    using a by (intro fetch_pages_refresh_run) simp
  also have "\<dots> = Some (if server' n = Raises then Exception else Returns (concat (map us [0..<n])),
          [0..<n] @ [n])"
    using a
    by (auto simp: aborts_def fetch_pages_refresh_raises fetch_pages_refresh_failed
        split: http.splits)
  finally show "get_users_in_org_refresh server'
      = Some (if server' n = Raises then Exception else Returns (concat (map us [0..<n])),
          [0..<Suc n])"
    by (simp add: get_users_in_org_refresh_def)
qed

theorem fetch_aborts_witness:
  "get_users_in_org forbidden_server_attempts no_jitter = Some (Returns [], [(0, 1)])
   \<and> get_users_in_org_refresh forbidden_server = Some (Returns [], [0])
   \<and> get_users_in_org slow_broken_server no_jitter
       = Some (Returns [member_of [''Photoshop'']], [(0, 1), (1, 1), (1, 2)])
   \<and> get_users_in_org_refresh broken_server
       = Some (Returns [member_of [''Photoshop'']], [0, 1])"
proof -
  have a: "aborts (forbidden_server_attempts 0 1)" and b: "aborts (forbidden_server 0)"
    by (simp_all add: aborts_def forbidden_server_attempts_def forbidden_server_def
        status_response_def retryable_def)
  have c: "forbidden_server 0 \<noteq> Raises" "broken_server 1 \<noteq> Raises"
    by (simp_all add: forbidden_server_def broken_server_def status_response_def)
  have first: "get_users_in_org forbidden_server_attempts no_jitter = Some (Returns [], [(0, 1)])
      \<and> get_users_in_org_refresh forbidden_server = Some (Returns [], [0])"
    using fetch_aborts [of 0 forbidden_server_attempts no_jitter "\<lambda>p. []" 1 forbidden_server]
      a b c by simp
  have mc0: "make_call (slow_broken_server 0) (no_jitter 0)
      = (Returns (Some (Page [member_of [''Photoshop'']] False)), 1)"
    by (simp add: make_call_def make_call_loop.simps slow_broken_server_def page_response_def)
  have d: "\<forall>p<1. answers slow_broken_server no_jitter p [member_of [''Photoshop'']] False"
    using mc0 by (simp add: answers_def)
  have e: "\<forall>attempt \<in> {1..<2}. retries (slow_broken_server 1 attempt)"
    by (simp add: slow_broken_server_def status_response_def retries_def retryable_def)
  have f: "aborts (slow_broken_server 1 2)" and g: "aborts (broken_server 1)"
    by (simp_all add: aborts_def slow_broken_server_def broken_server_def status_response_def
        retryable_def)
  have h: "\<forall>p<1. serves (broken_server p) [member_of [''Photoshop'']] False"
    by (simp add: serves_def broken_server_def page_response_def)
  have i: "concat (map (requests_for slow_broken_server no_jitter) [0..<1]) = [(0, 1)]"
    using mc0 by (simp add: requests_for_def)
  have j: "map (Pair (1::nat)) [1..<Suc 2] = [(1, 1), (1, 2::nat)]" by (simp add: upt_rec)
  have "get_users_in_org slow_broken_server no_jitter
        = Some (Returns (concat (map (\<lambda>p. [member_of [''Photoshop'']]) [0..<1])),
            concat (map (requests_for slow_broken_server no_jitter) [0..<1])
              @ map (Pair 1) [1..<Suc 2])
      \<and> get_users_in_org_refresh broken_server
        = Some (Returns (concat (map (\<lambda>p. [member_of [''Photoshop'']]) [0..<1])), [0..<Suc 1])"
    using fetch_aborts [of 1 slow_broken_server no_jitter "\<lambda>p. [member_of [''Photoshop'']]" 2
        broken_server] c d e f g h by simp
  then have "get_users_in_org slow_broken_server no_jitter
       = Some (Returns [member_of [''Photoshop'']], [(0, 1), (1, 1), (1, 2)])
     \<and> get_users_in_org_refresh broken_server
       = Some (Returns [member_of [''Photoshop'']], [0, 1])"
    by (simp only: i j) simp
  with first show ?thesis by simp
qed

text \<open>
  The claim as stated fails: page 0 is fetched, a request for page 1 is answered 500,
  and the result holds the user of page 0.
\<close>

theorem fetch_aborts_counterexample:
  "aborts (slow_broken_server 1 2)
   \<and> get_users_in_org slow_broken_server no_jitter
       = Some (Returns [member_of [''Photoshop'']], [(0, 1), (1, 1), (1, 2)])
   \<and> aborts (broken_server 1)
   \<and> get_users_in_org_refresh broken_server
       = Some (Returns [member_of [''Photoshop'']], [0, 1])"
proof -
  have "aborts (slow_broken_server 1 2)" "aborts (broken_server 1)"
    by (simp_all add: aborts_def slow_broken_server_def broken_server_def status_response_def
        retryable_def)
  moreover have "get_users_in_org slow_broken_server no_jitter
       = Some (Returns [member_of [''Photoshop'']], [(0, 1), (1, 1), (1, 2)])" by code_simp
  moreover have "get_users_in_org_refresh broken_server
       = Some (Returns [member_of [''Photoshop'']], [0, 1])" by code_simp
  ultimately show ?thesis by simp
qed

end
